theory Spec2Isabelle
  imports Main "HOL-Library.Sublist"
begin

section \<open>Python strings\<close>

text \<open>
  The program works on Python \<open>str\<close> values, which are sequences of code points.
  A text is modelled as a \<open>string\<close> in which every \<open>char\<close> stands for the code
  point of the same number, so the texts of the model are the Python strings over
  U+0000..U+00FF. Percent-decoding can produce code points beyond that range
  (U+FFFD for undecodable bytes, and anything UTF-8 encodes), so decoded query names
  and values are lists of code points (\<open>nat\<close>).
  The library functions follow CPython 3.11 (\<open>re\<close>, \<open>urllib.parse\<close>, \<open>pathlib\<close>).
\<close>

type_synonym codepoints = "nat list"

definition cps :: "string \<Rightarrow> codepoints" where
  "cps s = map of_char s"

text \<open>\<open>s.split(sep)\<close> for a one-character separator.\<close>

fun split_on :: "'a \<Rightarrow> 'a list \<Rightarrow> 'a list list" where
  "split_on sep [] = [[]]"
| "split_on sep (c # cs) =
     (if c = sep then [] # split_on sep cs
      else (case split_on sep cs of [] \<Rightarrow> [[c]] | w # ws \<Rightarrow> (c # w) # ws))"

text \<open>\<open>s.partition(sep)\<close>: the parts before and after the first separator, and whether
  there is one.\<close>

definition partition_str :: "'a \<Rightarrow> 'a list \<Rightarrow> 'a list \<times> bool \<times> 'a list" where
  "partition_str sep s =
     (takeWhile (\<lambda>c. c \<noteq> sep) s, sep \<in> set s, drop 1 (dropWhile (\<lambda>c. c \<noteq> sep) s))"

text \<open>\<open>sep.join(xs)\<close>.\<close>

fun join :: "'a list \<Rightarrow> 'a list list \<Rightarrow> 'a list" where
  "join sep [] = []"
| "join sep [x] = x"
| "join sep (x # y # ys) = x @ sep @ join sep (y # ys)"

text \<open>\<open>s.replace(old, new)\<close>: every non-overlapping occurrence of \<open>old\<close>, from the
  left; an empty \<open>old\<close> matches before every character and at the end.\<close>

fun replace_from :: "'a \<Rightarrow> 'a list \<Rightarrow> 'a list \<Rightarrow> 'a list \<Rightarrow> 'a list" where
  "replace_from a as new [] = []"
| "replace_from a as new (c # cs) =
     (if c = a \<and> prefix as cs then new @ replace_from a as new (drop (length as) cs)
      else c # replace_from a as new cs)"

definition str_replace :: "'a list \<Rightarrow> 'a list \<Rightarrow> 'a list \<Rightarrow> 'a list" where
  "str_replace old new s =
     (case old of
        [] \<Rightarrow> new @ concat (map (\<lambda>c. c # new) s)
      | a # as \<Rightarrow> replace_from a as new s)"

section \<open>Regular expressions: the fragment of \<open>re\<close> the locator uses\<close>

text \<open>
  A pattern is a sequence of items: one character, an optional character (\<open>x?\<close>) or a
  greedy repetition (\<open>x+\<close>), each over a literal or a character class. \<open>re_match\<close>
  is the backtracking matcher anchored at the start of the string: it returns the length
  of the first match in the engine's priority order (an optional item is tried present
  first, a repetition longest first).
\<close>

datatype atom = Chr char | Cls "char \<Rightarrow> bool"

datatype item = One atom | Opt atom | Plus atom

fun atom_ok :: "atom \<Rightarrow> char \<Rightarrow> bool" where
  "atom_ok (Chr a) c = (c = a)"
| "atom_ok (Cls P) c = P c"

fun first_some :: "'a option list \<Rightarrow> 'a option" where
  "first_some [] = None"
| "first_some (None # xs) = first_some xs"
| "first_some (Some x # xs) = Some x"

fun re_match :: "item list \<Rightarrow> string \<Rightarrow> nat option" where
  "re_match [] s = Some 0"
| "re_match (One a # r) s =
     (case s of
        [] \<Rightarrow> None
      | c # cs \<Rightarrow> if atom_ok a c then map_option Suc (re_match r cs) else None)"
| "re_match (Opt a # r) s =
     (case (case s of
              [] \<Rightarrow> None
            | c # cs \<Rightarrow> if atom_ok a c then map_option Suc (re_match r cs) else None) of
        Some n \<Rightarrow> Some n
      | None \<Rightarrow> re_match r s)"
| "re_match (Plus a # r) s =
     first_some
       (map (\<lambda>k. map_option (\<lambda>n. k + n) (re_match r (drop k s)))
            (rev [1 ..< Suc (length (takeWhile (atom_ok a) s))]))"

text \<open>
  \<open>re.findall\<close>: scan from the left; a match is reported and the scan goes on behind
  it, a position without a match is skipped. An empty match is reported and the scan moves
  one character on.
\<close>

fun findall :: "item list \<Rightarrow> string \<Rightarrow> string list" where
  "findall p [] = (case re_match p [] of None \<Rightarrow> [] | Some n \<Rightarrow> [[]])"
| "findall p (c # cs) =
     (case re_match p (c # cs) of
        None \<Rightarrow> findall p cs
      | Some 0 \<Rightarrow> [] # findall p cs
      | Some (Suc n) \<Rightarrow> take (Suc n) (c # cs) # findall p (drop n cs))"

text \<open>\<open>\s\<close> in a \<open>str\<close> pattern: the code points below 256 for which
  \<open>str.isspace\<close> holds.\<close>

definition is_space :: "char \<Rightarrow> bool" where
  "is_space c = ((of_char c :: nat) \<in> {9, 10, 11, 12, 13, 28, 29, 30, 31, 32, 133, 160})"

section \<open>The URL locator\<close>

text \<open>The character class \<open>[^\s\(\)]\<close>.\<close>

definition url_char :: "char \<Rightarrow> bool" where
  "url_char c = (\<not> (is_space c \<or> c = CHR ''('' \<or> c = CHR '')''))"

text \<open>The pattern \<open>https?://[^\s\(\)]+\<close>.\<close>

definition url_pattern :: "item list" where
  "url_pattern =
     [One (Chr CHR ''h''), One (Chr CHR ''t''), One (Chr CHR ''t''), One (Chr CHR ''p''),
      Opt (Chr CHR ''s''), One (Chr CHR '':''), One (Chr CHR ''/''), One (Chr CHR ''/''),
      Plus (Cls url_char)]"

definition find_urls :: "string \<Rightarrow> string list" where
  "find_urls text = findall url_pattern text"

section \<open>The image classifier\<close>

text \<open>
  \<open>PurePosixPath(p).name\<close>: the path is cut at every \<open>/\<close>, empty components and
  \<open>.\<close> components are dropped, and the name is the last component left (the empty
  string when there is none).
\<close>

definition posix_name :: "string \<Rightarrow> string" where
  "posix_name p =
     (case filter (\<lambda>x. x \<noteq> [] \<and> x \<noteq> ''.'') (split_on CHR ''/'' p) of
        [] \<Rightarrow> []
      | x # xs \<Rightarrow> last (x # xs))"

definition endswith :: "string \<Rightarrow> string \<Rightarrow> bool" where
  "endswith s t = suffix t s"

definition image_suffixes :: "string list" where
  "image_suffixes = [''png'', ''jpg'', ''jpeg'', ''svg'', ''webp'', ''gif'']"

definition is_image :: "string \<Rightarrow> bool" where
  "is_image image_url_path =
     (let path = posix_name image_url_path
      in list_ex (\<lambda>sfx. endswith path (CHR ''.'' # sfx)) image_suffixes)"

section \<open>\<open>urllib.parse\<close>: splitting and joining URLs\<close>

datatype error = ValueError

record parse_result =
  scheme :: string
  netloc :: string
  path :: string
  params :: string
  query :: string
  fragment :: string

definition scheme_chars :: string where
  "scheme_chars = ''abcdefghijklmnopqrstuvwxyzABCDEFGHIJKLMNOPQRSTUVWXYZ0123456789+-.''"

definition uses_params :: "string list" where
  "uses_params = ['''', ''ftp'', ''hdl'', ''prospero'', ''http'', ''imap'', ''https'', ''shttp'',
     ''rtsp'', ''rtsps'', ''rtspu'', ''sip'', ''sips'', ''mms'', ''sftp'', ''tel'']"

definition uses_netloc :: "string list" where
  "uses_netloc = ['''', ''ftp'', ''http'', ''gopher'', ''nntp'', ''telnet'', ''imap'', ''wais'',
     ''file'', ''mms'', ''https'', ''shttp'', ''snews'', ''prospero'', ''rtsp'', ''rtsps'',
     ''rtspu'', ''rsync'', ''svn'', ''svn+ssh'', ''sftp'', ''nfs'', ''git'', ''git+ssh'',
     ''ws'', ''wss'']"

definition is_ascii_alpha :: "char \<Rightarrow> bool" where
  "is_ascii_alpha c = (c \<in> set ''abcdefghijklmnopqrstuvwxyzABCDEFGHIJKLMNOPQRSTUVWXYZ'')"

text \<open>\<open>str.lower\<close> on the characters a scheme can have.\<close>

definition lower_char :: "char \<Rightarrow> char" where
  "lower_char c =
     (if c \<in> set ''ABCDEFGHIJKLMNOPQRSTUVWXYZ'' then char_of (of_char c + (32::nat)) else c)"

text \<open>\<open>_splitnetloc(url, 2)\<close>: the authority runs from behind the two slashes to the
  first of \<open>/\<close>, \<open>?\<close>, \<open>#\<close>.\<close>

definition splitnetloc :: "string \<Rightarrow> string \<times> string" where
  "splitnetloc url =
     (takeWhile (\<lambda>c. c \<notin> set ''/?#'') (drop 2 url),
      dropWhile (\<lambda>c. c \<notin> set ''/?#'') (drop 2 url))"

text \<open>
  \<open>urlsplit\<close>. Leading C0 control characters and spaces are stripped and every tab,
  carriage return and newline is removed. A scheme is split off when the text before the
  first colon starts with an ASCII letter and has scheme characters only. An authority
  with only one of \<open>[\<close> and \<open>]\<close> raises \<open>ValueError\<close>; an authority with both
  is handed to \<open>_check_bracketed_netloc\<close>, which validates the bracketed host with the
  \<open>ipaddress\<close> module: that check is the parameter \<open>bracketed_ok\<close> of the model.
  \<open>_checknetloc\<close> rejects an authority whose NFKC normal form gains one of
  \<open>/?#@:\<close>; no code point below 256 does that, so it never raises on the texts of the
  model.
\<close>

definition urlsplit ::
  "(string \<Rightarrow> bool) \<Rightarrow> string \<Rightarrow> error + (string \<times> string \<times> string \<times> string \<times> string)" where
  "urlsplit bracketed_ok url0 =
     (let url1 = dropWhile (\<lambda>c. (of_char c :: nat) \<le> 32) url0;
          url2 = filter (\<lambda>c. c \<notin> {CHR 0x09, CHR 0x0D, CHR 0x0A}) url1;
          pre = takeWhile (\<lambda>c. c \<noteq> CHR '':'') url2;
          has_scheme = (CHR '':'' \<in> set url2 \<and> pre \<noteq> [] \<and> is_ascii_alpha (hd url2)
                         \<and> list_all (\<lambda>c. c \<in> set scheme_chars) pre);
          sch = (if has_scheme then map lower_char pre else []);
          url3 = (if has_scheme then drop (Suc (length pre)) url2 else url2);
          has_netloc = (take 2 url3 = ''//'');
          nl = (if has_netloc then fst (splitnetloc url3) else []);
          url4 = (if has_netloc then snd (splitnetloc url3) else url3)
      in if has_netloc \<and> ((CHR ''['' \<in> set nl \<and> CHR '']'' \<notin> set nl)
                          \<or> (CHR '']'' \<in> set nl \<and> CHR ''['' \<notin> set nl))
         then Inl ValueError
         else if has_netloc \<and> CHR ''['' \<in> set nl \<and> CHR '']'' \<in> set nl
                 \<and> \<not> bracketed_ok nl
         then Inl ValueError
         else
           (let frag = snd (snd (partition_str CHR ''#'' url4));
                url5 = fst (partition_str CHR ''#'' url4);
                qs = snd (snd (partition_str CHR ''?'' url5));
                url6 = fst (partition_str CHR ''?'' url5)
            in Inr (sch, nl, url6, qs, frag)))"

text \<open>\<open>_splitparams\<close>: the parameters start at the first \<open>;\<close> of the last path
  segment.\<close>

definition splitparams :: "string \<Rightarrow> string \<times> string" where
  "splitparams url =
     (if CHR ''/'' \<in> set url then
        (let seg = rev (takeWhile (\<lambda>c. c \<noteq> CHR ''/'') (rev url));
             dir = take (length url - length seg) url
         in if CHR '';'' \<in> set seg
            then (dir @ takeWhile (\<lambda>c. c \<noteq> CHR '';'') seg,
                  drop 1 (dropWhile (\<lambda>c. c \<noteq> CHR '';'') seg))
            else (url, []))
      else if CHR '';'' \<in> set url
        then (takeWhile (\<lambda>c. c \<noteq> CHR '';'') url, drop 1 (dropWhile (\<lambda>c. c \<noteq> CHR '';'') url))
        else (butlast url, url))"

definition urlparse :: "(string \<Rightarrow> bool) \<Rightarrow> string \<Rightarrow> error + parse_result" where
  "urlparse bracketed_ok url =
     (case urlsplit bracketed_ok url of
        Inl e \<Rightarrow> Inl e
      | Inr (sch, nl, url1, qs, frag) \<Rightarrow>
          (let split = (if sch \<in> set uses_params \<and> CHR '';'' \<in> set url1 then splitparams url1
                        else (url1, []))
           in Inr \<lparr>scheme = sch, netloc = nl, path = fst split, params = snd split,
                    query = qs, fragment = frag\<rparr>))"

definition urlunsplit :: "string \<Rightarrow> string \<Rightarrow> string \<Rightarrow> string \<Rightarrow> string \<Rightarrow> string" where
  "urlunsplit sch nl url qs frag =
     (let url1 =
            (if nl \<noteq> [] \<or> (sch \<noteq> [] \<and> sch \<in> set uses_netloc) \<or> take 2 url = ''//''
             then ''//'' @ nl @ (if url \<noteq> [] \<and> take 1 url \<noteq> ''/'' then CHR ''/'' # url else url)
             else url);
          url2 = (if sch \<noteq> [] then sch @ '':'' @ url1 else url1);
          url3 = (if qs \<noteq> [] then url2 @ ''?'' @ qs else url2)
      in if frag \<noteq> [] then url3 @ ''#'' @ frag else url3)"

text \<open>\<open>ParseResult.geturl\<close> is \<open>urlunparse\<close> of the six components.\<close>

definition geturl :: "parse_result \<Rightarrow> string" where
  "geturl p =
     urlunsplit (scheme p) (netloc p)
       (if params p \<noteq> [] then path p @ '';'' @ params p else path p)
       (query p) (fragment p)"

section \<open>\<open>urllib.parse\<close>: query strings\<close>

text \<open>UTF-8, as \<open>str.encode\<close> writes it. The code points the program encodes are
  characters of the text, of the tracking values and of the three key names, or come out
  of \<open>utf8_decode\<close>: none of them is a surrogate, the one case where Python raises.\<close>

definition utf8_encode_cp :: "nat \<Rightarrow> nat list" where
  "utf8_encode_cp cp =
     (if cp < 0x80 then [cp]
      else if cp < 0x800 then [0xC0 + cp div 64, 0x80 + cp mod 64]
      else if cp < 0x10000 then [0xE0 + cp div 4096, 0x80 + (cp div 64) mod 64, 0x80 + cp mod 64]
      else [0xF0 + cp div 262144, 0x80 + (cp div 4096) mod 64, 0x80 + (cp div 64) mod 64,
            0x80 + cp mod 64])"

definition utf8_encode :: "codepoints \<Rightarrow> nat list" where
  "utf8_encode s = concat (map utf8_encode_cp s)"

definition is_cont :: "nat \<Rightarrow> bool" where
  "is_cont b = (0x80 \<le> b \<and> b < 0xC0)"

text \<open>\<open>bytes.decode('utf-8', 'replace')\<close>: every ill-formed sequence (an invalid start
  byte, or a start byte with the continuation bytes that validly follow it) becomes one
  U+FFFD.\<close>

fun utf8_decode :: "nat list \<Rightarrow> codepoints" where
  "utf8_decode [] = []"
| "utf8_decode (b # bs) =
     (if b < 0x80 then b # utf8_decode bs
      else if b < 0xC2 then 0xFFFD # utf8_decode bs
      else if b < 0xE0 then
        (case bs of
           [] \<Rightarrow> [0xFFFD]
         | c2 # r \<Rightarrow>
             if is_cont c2 then ((b - 0xC0) * 64 + (c2 - 0x80)) # utf8_decode r
             else 0xFFFD # utf8_decode bs)
      else if b < 0xF0 then
        (case bs of
           [] \<Rightarrow> [0xFFFD]
         | c2 # r \<Rightarrow>
             if \<not> is_cont c2 \<or> (b = 0xE0 \<and> c2 < 0xA0) \<or> (b = 0xED \<and> 0xA0 \<le> c2)
             then 0xFFFD # utf8_decode bs
             else
               (case r of
                  [] \<Rightarrow> [0xFFFD]
                | c3 # r' \<Rightarrow>
                    if is_cont c3
                    then ((b - 0xE0) * 4096 + (c2 - 0x80) * 64 + (c3 - 0x80)) # utf8_decode r'
                    else 0xFFFD # utf8_decode r))
      else if b < 0xF5 then
        (case bs of
           [] \<Rightarrow> [0xFFFD]
         | c2 # r \<Rightarrow>
             if \<not> is_cont c2 \<or> (b = 0xF0 \<and> c2 < 0x90) \<or> (b = 0xF4 \<and> 0x90 \<le> c2)
             then 0xFFFD # utf8_decode bs
             else
               (case r of
                  [] \<Rightarrow> [0xFFFD]
                | c3 # r' \<Rightarrow>
                    if \<not> is_cont c3 then 0xFFFD # utf8_decode r
                    else
                      (case r' of
                         [] \<Rightarrow> [0xFFFD]
                       | c4 # r'' \<Rightarrow>
                           if is_cont c4
                           then ((b - 0xF0) * 262144 + (c2 - 0x80) * 4096 + (c3 - 0x80) * 64
                                   + (c4 - 0x80)) # utf8_decode r''
                           else 0xFFFD # utf8_decode r')))
      else 0xFFFD # utf8_decode bs)"

definition hexdig :: string where
  "hexdig = ''0123456789ABCDEFabcdef''"

definition hexval :: "char \<Rightarrow> nat" where
  "hexval c =
     (let n = of_char c
      in if n < 58 then n - 48 else if n < 71 then n - 55 else n - 87)"

text \<open>\<open>unquote_to_bytes\<close> on an ASCII string: \<open>%\<close> and two hexadecimal digits are
  one byte, every other character is its own byte.\<close>

fun unquote_to_bytes :: "string \<Rightarrow> nat list" where
  "unquote_to_bytes [] = []"
| "unquote_to_bytes (c # cs) =
     (if c = CHR ''%'' then
        (case cs of
           a # b # r \<Rightarrow>
             if a \<in> set hexdig \<and> b \<in> set hexdig
             then (16 * hexval a + hexval b) # unquote_to_bytes r
             else of_char c # unquote_to_bytes cs
         | _ \<Rightarrow> of_char c # unquote_to_bytes cs)
      else of_char c # unquote_to_bytes cs)"

text \<open>The maximal runs of ASCII and of non-ASCII characters of a string
  (\<open>_asciire.split\<close>).\<close>

fun ascii_runs :: "string \<Rightarrow> (bool \<times> string) list" where
  "ascii_runs [] = []"
| "ascii_runs (c # cs) =
     (let a = ((of_char c :: nat) < 128)
      in case ascii_runs cs of
           [] \<Rightarrow> [(a, [c])]
         | (b, r) # rest \<Rightarrow> if a = b then (b, c # r) # rest else (a, [c]) # (b, r) # rest)"

text \<open>\<open>unquote\<close>: the ASCII runs are percent-decoded and read as UTF-8, the other
  characters stay.\<close>

definition unquote :: "string \<Rightarrow> codepoints" where
  "unquote s =
     concat (map (\<lambda>(a, r). if a then utf8_decode (unquote_to_bytes r) else cps r)
                 (ascii_runs s))"

definition unquote_plus :: "string \<Rightarrow> codepoints" where
  "unquote_plus s = unquote (map (\<lambda>c. if c = CHR ''+'' then CHR '' '' else c) s)"

text \<open>\<open>parse_qsl(qs)\<close> with its defaults: the fields are cut at \<open>&\<close>; an empty field,
  a field without \<open>=\<close> and a field with an empty value are dropped.\<close>

definition parse_qsl :: "string \<Rightarrow> (codepoints \<times> codepoints) list" where
  "parse_qsl qs =
     (if qs = [] then []
      else concat (map (\<lambda>name_value.
             if name_value \<noteq> [] then
               (let name = fst (partition_str CHR ''='' name_value);
                    val = snd (snd (partition_str CHR ''='' name_value))
                in if val \<noteq> [] then [(unquote_plus name, unquote_plus val)] else [])
             else [])
           (split_on CHR ''&'' qs)))"

definition always_safe :: string where
  "always_safe = ''ABCDEFGHIJKLMNOPQRSTUVWXYZabcdefghijklmnopqrstuvwxyz0123456789_.-~''"

definition hexchar :: "nat \<Rightarrow> char" where
  "hexchar n = ''0123456789ABCDEF'' ! n"

text \<open>One byte of \<open>quote_plus\<close>: a space is \<open>+\<close>, an always-safe byte is itself,
  any other byte is \<open>%XX\<close> in upper-case hexadecimal.\<close>

definition quote_byte :: "nat \<Rightarrow> string" where
  "quote_byte b =
     (if b = 32 then ''+''
      else if b < 128 \<and> char_of b \<in> set always_safe then [char_of b]
      else [CHR ''%'', hexchar (b div 16), hexchar (b mod 16)])"

definition quote_plus :: "codepoints \<Rightarrow> string" where
  "quote_plus s = concat (map quote_byte (utf8_encode s))"

text \<open>\<open>urlencode\<close> of the items of a dictionary.\<close>

definition urlencode :: "(codepoints \<times> codepoints) list \<Rightarrow> string" where
  "urlencode items = join ''&'' (map (\<lambda>(k, v). quote_plus k @ ''='' @ quote_plus v) items)"

section \<open>Dictionaries\<close>

text \<open>A \<open>dict\<close> keeps its keys in insertion order: storing under a key it has replaces
  the value where the key stands, a new key goes to the end.\<close>

fun dict_set :: "('k \<times> 'v) list \<Rightarrow> 'k \<Rightarrow> 'v \<Rightarrow> ('k \<times> 'v) list" where
  "dict_set [] k v = [(k, v)]"
| "dict_set ((k', v') # d) k v = (if k' = k then (k', v) # d else (k', v') # dict_set d k v)"

text \<open>\<open>{**d, **e}\<close>, and \<open>dict(pairs)\<close> as the update of the empty dictionary.\<close>

definition dict_update :: "('k \<times> 'v) list \<Rightarrow> ('k \<times> 'v) list \<Rightarrow> ('k \<times> 'v) list" where
  "dict_update d items = foldl (\<lambda>d (k, v). dict_set d k v) d items"

definition dict_of :: "('k \<times> 'v) list \<Rightarrow> ('k \<times> 'v) list" where
  "dict_of items = dict_update [] items"

section \<open>The URL annotator\<close>

datatype url_arg = Str string | Parsed parse_result

definition utm :: "string \<Rightarrow> string \<Rightarrow> string \<Rightarrow> (codepoints \<times> codepoints) list" where
  "utm source medium campaign =
     [(cps ''utm_source'', cps source),
      (cps ''utm_medium'', cps medium),
      (cps ''utm_campaign'', cps campaign)]"

definition add_utm_to_url ::
  "(string \<Rightarrow> bool) \<Rightarrow> url_arg \<Rightarrow> string \<Rightarrow> string \<Rightarrow> string \<Rightarrow> error + string" where
  "add_utm_to_url bracketed_ok url source medium campaign =
     (case (case url of Str s \<Rightarrow> urlparse bracketed_ok s | Parsed p \<Rightarrow> Inr p) of
        Inl e \<Rightarrow> Inl e
      | Inr parsed \<Rightarrow>
          (let current_params = dict_of (parse_qsl (query parsed));
               parsed' = parsed\<lparr>query :=
                 urlencode (dict_update current_params (utm source medium campaign))\<rparr>
           in Inr (geturl parsed')))"

section \<open>The document transform\<close>

text \<open>A list comprehension whose body can raise: the first error ends it.\<close>

fun map_result :: "('a \<Rightarrow> error + 'b) \<Rightarrow> 'a list \<Rightarrow> error + 'b list" where
  "map_result f [] = Inr []"
| "map_result f (x # xs) =
     (case f x of
        Inl e \<Rightarrow> Inl e
      | Inr y \<Rightarrow> (case map_result f xs of Inl e \<Rightarrow> Inl e | Inr ys \<Rightarrow> Inr (y # ys)))"

definition add_utm_to_all_urls ::
  "(string \<Rightarrow> bool) \<Rightarrow> string \<Rightarrow> string \<Rightarrow> string \<Rightarrow> string \<Rightarrow> error + string" where
  "add_utm_to_all_urls bracketed_ok text source medium campaign =
     (case map_result (urlparse bracketed_ok) (find_urls text) of
        Inl e \<Rightarrow> Inl e
      | Inr urls0 \<Rightarrow>
          (let urls = filter (\<lambda>url. \<not> is_image (path url)) urls0
           in case map_result
                     (\<lambda>url. case add_utm_to_url bracketed_ok (Parsed url) source medium campaign of
                               Inl e \<Rightarrow> Inl e
                             | Inr new \<Rightarrow> Inr (geturl url, new))
                     urls of
                Inl e \<Rightarrow> Inl e
              | Inr items \<Rightarrow>
                  Inr (foldl (\<lambda>text (original, new). str_replace original new text)
                             text (dict_of items))))"

section \<open>Reference definitions\<close>

text \<open>The image test as the specification words it: the final path segment is what stands
  behind the last \<open>/\<close>.\<close>

definition final_segment :: "string \<Rightarrow> string" where
  "final_segment p = last (split_on CHR ''/'' p)"

definition spec_is_image :: "string \<Rightarrow> bool" where
  "spec_is_image p = list_ex (\<lambda>sfx. endswith (final_segment p) (CHR ''.'' # sfx)) image_suffixes"

text \<open>What \<open>PurePosixPath\<close> skips behind the name: a tail of empty and \<open>.\<close>
  components.\<close>

definition skipped :: "string \<Rightarrow> bool" where
  "skipped x = (x = [] \<or> x = ''.'')"

definition trailing :: "string \<Rightarrow> bool" where
  "trailing t = ((t = [] \<or> hd t = CHR ''/'') \<and> list_all skipped (split_on CHR ''/'' t))"

text \<open>The scheme token at the start of a string, by its length.\<close>

definition token_len :: "string \<Rightarrow> nat option" where
  "token_len s =
     (if prefix ''https://'' s then Some 8 else if prefix ''http://'' s then Some 7 else None)"

text \<open>The match of the locator's rule at the start of a string: a scheme token and the
  longest run of URL characters behind it, which must not be empty.\<close>

definition url_at :: "string \<Rightarrow> nat option" where
  "url_at s =
     (case token_len s of
        None \<Rightarrow> None
      | Some k \<Rightarrow>
          (let run = takeWhile url_char (drop k s)
           in if run = [] then None else Some (k + length run)))"

text \<open>The scan from the left: a match is reported and the scan resumes behind it (a match
  has at least eight characters), so the reported substrings do not overlap.\<close>

fun scan_urls :: "string \<Rightarrow> string list" where
  "scan_urls [] = []"
| "scan_urls (c # cs) =
     (case url_at (c # cs) of
        None \<Rightarrow> scan_urls cs
      | Some n \<Rightarrow> take n (c # cs) # scan_urls (drop (n - 1) cs))"

text \<open>The locator as the specification words it: every position where a scheme token
  starts gives the token and the longest run of URL characters behind it.\<close>

fun spec_find_urls :: "string \<Rightarrow> string list" where
  "spec_find_urls [] = []"
| "spec_find_urls (c # cs) =
     (case token_len (c # cs) of
        None \<Rightarrow> spec_find_urls cs
      | Some k \<Rightarrow> (take k (c # cs) @ takeWhile url_char (drop k (c # cs))) # spec_find_urls cs)"

section \<open>Auxiliary definitions for the query codec\<close>

text \<open>The Unicode scalar values: the code points \<open>str.encode\<close> accepts.\<close>

definition scalar :: "nat \<Rightarrow> bool" where
  "scalar c = (c < 0xD800 \<or> (0xE000 \<le> c \<and> c < 0x110000))"

text \<open>\<open>unquote_plus\<close> first turns every \<open>+\<close> into a space.\<close>

definition plus_to_space :: "char \<Rightarrow> char" where
  "plus_to_space c = (if c = CHR ''+'' then CHR '' '' else c)"

text \<open>The characters \<open>quote_plus\<close> writes.\<close>

definition quoted_char :: "char \<Rightarrow> bool" where
  "quoted_char c = (c \<in> set always_safe \<or> c = CHR ''+'' \<or> c = CHR ''%'')"

definition is_ascii :: "char \<Rightarrow> bool" where
  "is_ascii c = ((of_char c :: nat) < 128)"

section \<open>Auxiliary definitions for the annotator\<close>

text \<open>The first lines of \<open>add_utm_to_url\<close>: a string is parsed, a parsed URL is taken
  as it is.\<close>

definition parses_to :: "(string \<Rightarrow> bool) \<Rightarrow> url_arg \<Rightarrow> parse_result \<Rightarrow> bool" where
  "parses_to ok url p = ((case url of Str s \<Rightarrow> urlparse ok s | Parsed p' \<Rightarrow> Inr p') = Inr p)"

text \<open>The dictionary \<open>{**current_params, **utm}\<close> the annotator encodes.\<close>

definition merged_params ::
  "string \<Rightarrow> string \<Rightarrow> string \<Rightarrow> string \<Rightarrow> (codepoints \<times> codepoints) list" where
  "merged_params q source medium campaign =
     dict_update (dict_of (parse_qsl q)) (utm source medium campaign)"

text \<open>One field of an encoded query, and the two sides of a field of a raw query.\<close>

definition query_field :: "codepoints \<Rightarrow> codepoints \<Rightarrow> string" where
  "query_field k v = quote_plus k @ ''='' @ quote_plus v"

definition raw_name :: "string \<Rightarrow> string" where
  "raw_name name_value = fst (partition_str CHR ''='' name_value)"

definition raw_value :: "string \<Rightarrow> string" where
  "raw_value name_value = snd (snd (partition_str CHR ''='' name_value))"

section \<open>Auxiliary definitions for re-parsing an annotated URL\<close>










section \<open>Splitting and joining\<close>

lemma split_on_not_Nil: "split_on sep s \<noteq> []"
  by (induction s) (auto split: list.splits)

lemma split_on_no_sep: "sep \<notin> set s \<Longrightarrow> split_on sep s = [s]"
  by (induction s) auto

lemma split_on_app: "split_on sep (a @ sep # b) = split_on sep a @ split_on sep b"
proof (induction a)
  case Nil
  show ?case by simp
next
  case (Cons c a)
  show ?case
  proof (cases "c = sep")
    case True
    then show ?thesis using Cons by simp
  next
    case False
    obtain w ws where w: "split_on sep a = w # ws"
      using split_on_not_Nil[of sep a] by (cases "split_on sep a") auto
    show ?thesis using False Cons w by simp
  qed
qed

lemma join_split_on: "join [sep] (split_on sep s) = s"
proof (induction s)
  case Nil
  show ?case by simp
next
  case (Cons c s)
  obtain w ws where w: "split_on sep s = w # ws"
    using split_on_not_Nil[of sep s] by (cases "split_on sep s") auto
  show ?case
  proof (cases "c = sep")
    case True
    then show ?thesis using Cons w by simp
  next
    case False
    then show ?thesis using Cons w by (cases ws) auto
  qed
qed

lemma split_on_no_sep_in: "x \<in> set (split_on sep s) \<Longrightarrow> sep \<notin> set x"
proof (induction s arbitrary: x)
  case Nil
  then show ?case by simp
next
  case (Cons c s)
  obtain w ws where w: "split_on sep s = w # ws"
    using split_on_not_Nil[of sep s] by (cases "split_on sep s") auto
  show ?case
  proof (cases "c = sep")
    case True
    then show ?thesis using Cons by auto
  next
    case False
    then show ?thesis using Cons w by auto
  qed
qed

lemma join_append:
  "l1 \<noteq> [] \<Longrightarrow> l2 \<noteq> [] \<Longrightarrow> join sep (l1 @ l2) = join sep l1 @ sep @ join sep l2"
proof (induction sep l1 rule: join.induct)
  case (1 sep)
  then show ?case by simp
next
  case (2 sep x)
  then show ?case by (cases l2) auto
next
  case (3 sep x y ys)
  then show ?case by simp
qed

lemma split_on_join:
  "l \<noteq> [] \<Longrightarrow> list_all (\<lambda>x. sep \<notin> set x) l \<Longrightarrow> split_on sep (join [sep] l) = l"
proof (induction "[sep]" l rule: join.induct)
  case 1
  then show ?case by simp
next
  case (2 x)
  then show ?case by (simp add: split_on_no_sep)
next
  case (3 x y ys)
  have "split_on sep (x @ sep # join [sep] (y # ys)) = split_on sep x @ split_on sep (join [sep] (y # ys))"
    by (rule split_on_app)
  then show ?case using 3 by (simp add: split_on_no_sep)
qed

lemma filter_last_decomp:
  "filter P l = x # xs \<Longrightarrow>
   \<exists>l1 l2. l = l1 @ last (x # xs) # l2 \<and> list_all (\<lambda>y. \<not> P y) l2 \<and> P (last (x # xs))"
proof (induction l arbitrary: x xs rule: rev_induct)
  case Nil
  then show ?case by simp
next
  case (snoc y l)
  show ?case
  proof (cases "P y")
    case True
    then have "filter P l @ [y] = x # xs" using snoc.prems by simp
    then have "last (x # xs) = y" by (metis last_snoc)
    then show ?thesis using True by (intro exI[of _ l] exI[of _ "[]"]) simp
  next
    case False
    then have "filter P l = x # xs" using snoc.prems by simp
    from snoc.IH[OF this] obtain l1 l2 where
      "l = l1 @ last (x # xs) # l2" "list_all (\<lambda>y. \<not> P y) l2" "P (last (x # xs))" by blast
    then show ?thesis using False
      by (intro exI[of _ l1] exI[of _ "l2 @ [y]"]) simp
  qed
qed

section \<open>UTF-8 and percent-encoding\<close>

lemma utf8_decode_1: "b < 0x80 \<Longrightarrow> utf8_decode (b # bs) = b # utf8_decode bs"
  by (simp only: utf8_decode.simps(2) if_True)

lemma utf8_decode_bad:
  "0x80 \<le> b \<Longrightarrow> b < 0xC2 \<or> 0xF5 \<le> b \<Longrightarrow> utf8_decode (b # bs) = 0xFFFD # utf8_decode bs"
proof -
  assume a: "0x80 \<le> b" "b < 0xC2 \<or> 0xF5 \<le> b"
  have n: "\<not> b < 0x80" using a by linarith
  show ?thesis
  proof (cases "b < 0xC2")
    case True
    then show ?thesis by (simp only: utf8_decode.simps(2) n if_False if_True)
  next
    case False
    then have m: "\<not> b < 0xE0" "\<not> b < 0xF0" "\<not> b < 0xF5" using a by linarith+
    show ?thesis by (simp only: utf8_decode.simps(2) n False m if_False if_True)
  qed
qed

lemma utf8_decode_2:
  "0xC2 \<le> b \<Longrightarrow> b < 0xE0 \<Longrightarrow>
   utf8_decode (b # bs) =
     (case bs of
        [] \<Rightarrow> [0xFFFD]
      | c2 # r \<Rightarrow>
          if is_cont c2 then ((b - 0xC0) * 64 + (c2 - 0x80)) # utf8_decode r
          else 0xFFFD # utf8_decode bs)"
proof -
  assume a: "0xC2 \<le> b" "b < 0xE0"
  have n: "\<not> b < 0x80" "\<not> b < 0xC2" using a by linarith+
  show ?thesis by (simp only: utf8_decode.simps(2) n a if_False if_True)
qed

lemma utf8_decode_3:
  "0xE0 \<le> b \<Longrightarrow> b < 0xF0 \<Longrightarrow>
   utf8_decode (b # bs) =
     (case bs of
        [] \<Rightarrow> [0xFFFD]
      | c2 # r \<Rightarrow>
          if \<not> is_cont c2 \<or> (b = 0xE0 \<and> c2 < 0xA0) \<or> (b = 0xED \<and> 0xA0 \<le> c2)
          then 0xFFFD # utf8_decode bs
          else
            (case r of
               [] \<Rightarrow> [0xFFFD]
             | c3 # r' \<Rightarrow>
                 if is_cont c3
                 then ((b - 0xE0) * 4096 + (c2 - 0x80) * 64 + (c3 - 0x80)) # utf8_decode r'
                 else 0xFFFD # utf8_decode r))"
proof -
  assume a: "0xE0 \<le> b" "b < 0xF0"
  have n: "\<not> b < 0x80" "\<not> b < 0xC2" "\<not> b < 0xE0" using a by linarith+
  show ?thesis by (simp only: utf8_decode.simps(2) n a if_False if_True)
qed

lemma utf8_decode_4:
  "0xF0 \<le> b \<Longrightarrow> b < 0xF5 \<Longrightarrow>
   utf8_decode (b # bs) =
     (case bs of
        [] \<Rightarrow> [0xFFFD]
      | c2 # r \<Rightarrow>
          if \<not> is_cont c2 \<or> (b = 0xF0 \<and> c2 < 0x90) \<or> (b = 0xF4 \<and> 0x90 \<le> c2)
          then 0xFFFD # utf8_decode bs
          else
            (case r of
               [] \<Rightarrow> [0xFFFD]
             | c3 # r' \<Rightarrow>
                 if \<not> is_cont c3 then 0xFFFD # utf8_decode r
                 else
                   (case r' of
                      [] \<Rightarrow> [0xFFFD]
                    | c4 # r'' \<Rightarrow>
                        if is_cont c4
                        then ((b - 0xF0) * 262144 + (c2 - 0x80) * 4096 + (c3 - 0x80) * 64
                                + (c4 - 0x80)) # utf8_decode r''
                        else 0xFFFD # utf8_decode r')))"
proof -
  assume a: "0xF0 \<le> b" "b < 0xF5"
  have n: "\<not> b < 0x80" "\<not> b < 0xC2" "\<not> b < 0xE0" "\<not> b < 0xF0" using a by linarith+
  show ?thesis by (simp only: utf8_decode.simps(2) n a if_False if_True)
qed

lemma scalar_FFFD: "scalar 0xFFFD"
  by (simp add: scalar_def)

lemma cont_bounds: "is_cont c \<Longrightarrow> c - 0x80 \<le> 63"
  unfolding is_cont_def by linarith

lemma cp2_bound: "(x::nat) \<le> 31 \<Longrightarrow> y \<le> 63 \<Longrightarrow> x * 64 + y < 2048"
  by linarith

lemma cp3_bound:
  assumes "(x::nat) \<le> 15" "y \<le> 63" "z \<le> 63" "\<not> (x = 13 \<and> 32 \<le> y)"
  shows "x * 4096 + y * 64 + z < 55296 \<or> (57344 \<le> x * 4096 + y * 64 + z \<and> x * 4096 + y * 64 + z < 65536)"
proof -
  consider "x \<le> 12" | "x = 13" "y < 32" | "14 \<le> x" using assms by linarith
  then show ?thesis
  proof cases
    case 1
    then show ?thesis using assms by linarith
  next
    case 2
    then show ?thesis using assms by linarith
  next
    case 3
    then show ?thesis using assms by linarith
  qed
qed

lemma cp4_bound:
  assumes "(x::nat) \<le> 4" "y \<le> 63" "z \<le> 63" "w \<le> 63" "\<not> (x = 0 \<and> y < 16)" "\<not> (x = 4 \<and> 16 \<le> y)"
  shows "65536 \<le> x * 262144 + y * 4096 + z * 64 + w \<and> x * 262144 + y * 4096 + z * 64 + w < 1114112"
proof -
  consider "x = 0" "16 \<le> y" | "1 \<le> x" "x \<le> 3" | "x = 4" "y < 16" using assms by linarith
  then show ?thesis
  proof cases
    case 1
    then show ?thesis using assms by linarith
  next
    case 2
    then show ?thesis using assms by linarith
  next
    case 3
    then show ?thesis using assms by linarith
  qed
qed

lemma scalar_cp2: "b < 0xE0 \<Longrightarrow> is_cont c2 \<Longrightarrow> scalar ((b - 0xC0) * 64 + (c2 - 0x80))"
proof -
  assume a: "b < 0xE0" "is_cont c2"
  define x where "x = b - 0xC0"
  define y where "y = c2 - 0x80"
  have "x \<le> 31" using a unfolding x_def by linarith
  moreover have "y \<le> 63" using cont_bounds[OF a(2)] unfolding y_def .
  ultimately have "x * 64 + y < 2048" by (rule cp2_bound)
  then have "x * 64 + y < 0xD800" by linarith
  then show ?thesis unfolding scalar_def x_def y_def by blast
qed

lemma scalar_cp3:
  "0xE0 \<le> b \<Longrightarrow> b < 0xF0 \<Longrightarrow> is_cont c2 \<Longrightarrow> \<not> (b = 0xED \<and> 0xA0 \<le> c2) \<Longrightarrow> is_cont c3 \<Longrightarrow>
   scalar ((b - 0xE0) * 4096 + (c2 - 0x80) * 64 + (c3 - 0x80))"
proof -
  assume a: "0xE0 \<le> b" "b < 0xF0" "is_cont c2" "\<not> (b = 0xED \<and> 0xA0 \<le> c2)" "is_cont c3"
  define x where "x = b - 0xE0"
  define y where "y = c2 - 0x80"
  define z where "z = c3 - 0x80"
  have "x \<le> 15" using a unfolding x_def by linarith
  moreover have "y \<le> 63" using cont_bounds[OF a(3)] unfolding y_def .
  moreover have "z \<le> 63" using cont_bounds[OF a(5)] unfolding z_def .
  moreover have "\<not> (x = 13 \<and> 32 \<le> y)" using a unfolding x_def y_def is_cont_def by linarith
  ultimately have "x * 4096 + y * 64 + z < 55296 \<or>
      (57344 \<le> x * 4096 + y * 64 + z \<and> x * 4096 + y * 64 + z < 65536)"
    by (rule cp3_bound)
  then have "x * 4096 + y * 64 + z < 0xD800 \<or>
      (0xE000 \<le> x * 4096 + y * 64 + z \<and> x * 4096 + y * 64 + z < 0x110000)"
    by linarith
  then show ?thesis unfolding scalar_def x_def y_def z_def .
qed

lemma scalar_cp4:
  "0xF0 \<le> b \<Longrightarrow> b < 0xF5 \<Longrightarrow> is_cont c2 \<Longrightarrow> \<not> (b = 0xF0 \<and> c2 < 0x90) \<Longrightarrow>
   \<not> (b = 0xF4 \<and> 0x90 \<le> c2) \<Longrightarrow> is_cont c3 \<Longrightarrow> is_cont c4 \<Longrightarrow>
   scalar ((b - 0xF0) * 262144 + (c2 - 0x80) * 4096 + (c3 - 0x80) * 64 + (c4 - 0x80))"
proof -
  assume a: "0xF0 \<le> b" "b < 0xF5" "is_cont c2" "\<not> (b = 0xF0 \<and> c2 < 0x90)"
    "\<not> (b = 0xF4 \<and> 0x90 \<le> c2)" "is_cont c3" "is_cont c4"
  define x where "x = b - 0xF0"
  define y where "y = c2 - 0x80"
  define z where "z = c3 - 0x80"
  define w where "w = c4 - 0x80"
  have "x \<le> 4" using a unfolding x_def by linarith
  moreover have "y \<le> 63" using cont_bounds[OF a(3)] unfolding y_def .
  moreover have "z \<le> 63" using cont_bounds[OF a(6)] unfolding z_def .
  moreover have "w \<le> 63" using cont_bounds[OF a(7)] unfolding w_def .
  moreover have "\<not> (x = 0 \<and> y < 16)" using a unfolding x_def y_def is_cont_def by linarith
  moreover have "\<not> (x = 4 \<and> 16 \<le> y)" using a unfolding x_def y_def is_cont_def by linarith
  ultimately have "65536 \<le> x * 262144 + y * 4096 + z * 64 + w \<and>
      x * 262144 + y * 4096 + z * 64 + w < 1114112"
    by (rule cp4_bound)
  then have "0xE000 \<le> x * 262144 + y * 4096 + z * 64 + w \<and>
      x * 262144 + y * 4096 + z * 64 + w < 0x110000"
    by linarith
  then show ?thesis unfolding scalar_def x_def y_def z_def w_def by blast
qed

lemma utf8_decode_scalar: "list_all scalar (utf8_decode bs)"
proof (induction bs rule: length_induct)
  case (1 bs)
  show ?case
  proof (cases bs)
    case Nil
    then show ?thesis by simp
  next
    case (Cons b t)
    have ih: "length r \<le> length t \<Longrightarrow> list_all scalar (utf8_decode r)" for r
      using 1 Cons by simp
    consider (a) "b < 0x80" | (bad) "0x80 \<le> b" "b < 0xC2 \<or> 0xF5 \<le> b"
      | (two) "0xC2 \<le> b" "b < 0xE0" | (three) "0xE0 \<le> b" "b < 0xF0"
      | (four) "0xF0 \<le> b" "b < 0xF5"
      by linarith
    then show ?thesis
    proof cases
      case a
      then have "scalar b" unfolding scalar_def by linarith
      then show ?thesis using ih[of t] unfolding Cons utf8_decode_1[OF a] by simp
    next
      case bad
      then show ?thesis using ih[of t] unfolding Cons utf8_decode_bad[OF bad]
        by (simp add: scalar_FFFD)
    next
      case two
      show ?thesis
      proof (cases t)
        case Nil
        then show ?thesis unfolding Cons utf8_decode_2[OF two] by (simp add: scalar_FFFD)
      next
        case c2: (Cons c2 r)
        show ?thesis unfolding Cons utf8_decode_2[OF two] c2
          using ih[of r] ih[of "c2 # r"] two scalar_cp2[of b c2] c2
          by (simp add: scalar_FFFD del: utf8_decode.simps)
      qed
    next
      case three
      show ?thesis
      proof (cases t)
        case Nil
        then show ?thesis unfolding Cons utf8_decode_3[OF three] by (simp add: scalar_FFFD)
      next
        case c2: (Cons c2 r)
        show ?thesis
        proof (cases r)
          case Nil
          then show ?thesis unfolding Cons utf8_decode_3[OF three] c2
            using ih[of "c2 # r"] c2 by (simp add: scalar_FFFD del: utf8_decode.simps)
        next
          case c3: (Cons c3 r')
          show ?thesis unfolding Cons utf8_decode_3[OF three] c2 c3
            using ih[of "c2 # c3 # r'"] ih[of "c3 # r'"] ih[of r'] three
              scalar_cp3[of b c2 c3] c2 c3
            by (simp add: scalar_FFFD del: utf8_decode.simps)
        qed
      qed
    next
      case four
      show ?thesis
      proof (cases t)
        case Nil
        then show ?thesis unfolding Cons utf8_decode_4[OF four] by (simp add: scalar_FFFD)
      next
        case c2: (Cons c2 r)
        show ?thesis
        proof (cases r)
          case Nil
          then show ?thesis unfolding Cons utf8_decode_4[OF four] c2
            using ih[of "c2 # r"] c2 by (simp add: scalar_FFFD del: utf8_decode.simps)
        next
          case c3: (Cons c3 r')
          show ?thesis
          proof (cases r')
            case Nil
            then show ?thesis unfolding Cons utf8_decode_4[OF four] c2 c3
              using ih[of "c2 # c3 # r'"] ih[of "c3 # r'"] c2 c3
              by (simp add: scalar_FFFD del: utf8_decode.simps)
          next
            case c4: (Cons c4 r'')
            show ?thesis unfolding Cons utf8_decode_4[OF four] c2 c3 c4
              using ih[of "c2 # c3 # c4 # r''"] ih[of "c3 # c4 # r''"] ih[of "c4 # r''"] ih[of r'']
                four scalar_cp4[of b c2 c3 c4] c2 c3 c4
              by (simp add: scalar_FFFD del: utf8_decode.simps)
          qed
        qed
      qed
    qed
  qed
qed

lemma split2:
  fixes c :: nat
  obtains x y where "c = x * 64 + y" "y < 64" "c div 64 = x" "c mod 64 = y"
proof -
  have "c = c div 64 * 64 + c mod 64" by (rule div_mult_mod_eq[symmetric])
  moreover have "c mod 64 < 64" by (rule mod_less_divisor) simp
  ultimately show ?thesis using that by blast
qed

lemma split3:
  fixes c :: nat
  obtains x y z where "c = x * 4096 + y * 64 + z" "y < 64" "z < 64"
    "c div 4096 = x" "(c div 64) mod 64 = y" "c mod 64 = z"
proof -
  obtain q z where q: "c = q * 64 + z" "z < 64" "c div 64 = q" "c mod 64 = z"
    by (rule split2)
  obtain x y where x: "q = x * 64 + y" "y < 64" "q div 64 = x" "q mod 64 = y"
    by (rule split2)
  have "c div 4096 = c div 64 div 64" using div_mult2_eq[of c 64 64] by simp
  then have d: "c div 4096 = x" using q x by simp
  have "c = x * 4096 + y * 64 + z" using q(1) x(1) by simp
  then show ?thesis using that[of x y z] q x d by blast
qed

lemma split4:
  fixes c :: nat
  obtains x y z w where "c = x * 262144 + y * 4096 + z * 64 + w" "y < 64" "z < 64" "w < 64"
    "c div 262144 = x" "(c div 4096) mod 64 = y" "(c div 64) mod 64 = z" "c mod 64 = w"
proof -
  obtain q w where q: "c = q * 64 + w" "w < 64" "c div 64 = q" "c mod 64 = w"
    by (rule split2)
  obtain x y z where x: "q = x * 4096 + y * 64 + z" "y < 64" "z < 64"
    "q div 4096 = x" "(q div 64) mod 64 = y" "q mod 64 = z"
    by (rule split3)
  have "c div 262144 = c div 64 div 4096" using div_mult2_eq[of c 64 4096] by simp
  then have d: "c div 262144 = x" using q x by simp
  have "c div 4096 = c div 64 div 64" using div_mult2_eq[of c 64 64] by simp
  then have e: "(c div 4096) mod 64 = y" using q x by simp
  have "c = x * 262144 + y * 4096 + z * 64 + w" using q(1) x(1) by simp
  then show ?thesis using that[of x y z w] q x d e by blast
qed

lemma is_cont_add: "y < 64 \<Longrightarrow> is_cont (0x80 + y)"
  unfolding is_cont_def by linarith

lemma dec_enc2:
  assumes "2 \<le> x" "x \<le> 31" "y < 64"
  shows "utf8_decode ((0xC0 + x) # (0x80 + y) # bs) = (x * 64 + y) # utf8_decode bs"
proof -
  have b: "0xC2 \<le> 0xC0 + x" "0xC0 + x < 0xE0" using assms by linarith+
  have v: "(0xC0 + x - 0xC0) * 64 + (0x80 + y - 0x80) = x * 64 + y" by simp
  show ?thesis unfolding utf8_decode_2[OF b] list.case v
    using is_cont_add[OF assms(3)] by (simp only: if_True)
qed

lemma dec_enc3:
  assumes "x \<le> 15" "y < 64" "z < 64" "\<not> (x = 0 \<and> y < 32)" "\<not> (x = 13 \<and> 32 \<le> y)"
  shows "utf8_decode ((0xE0 + x) # (0x80 + y) # (0x80 + z) # bs)
           = (x * 4096 + y * 64 + z) # utf8_decode bs"
proof -
  have b: "0xE0 \<le> 0xE0 + x" "0xE0 + x < 0xF0" using assms by linarith+
  have v: "(0xE0 + x - 0xE0) * 4096 + (0x80 + y - 0x80) * 64 + (0x80 + z - 0x80)
             = x * 4096 + y * 64 + z" by simp
  have c: "\<not> (\<not> is_cont (0x80 + y) \<or> (0xE0 + x = 0xE0 \<and> 0x80 + y < 0xA0)
              \<or> (0xE0 + x = 0xED \<and> 0xA0 \<le> 0x80 + y))"
    using assms is_cont_add[OF assms(2)] by auto
  show ?thesis
    unfolding utf8_decode_3[OF b] list.case if_not_P[OF c] v
    using is_cont_add[OF assms(3)] by (simp only: if_True)
qed

lemma dec_enc4:
  assumes "x \<le> 4" "y < 64" "z < 64" "w < 64" "\<not> (x = 0 \<and> y < 16)" "\<not> (x = 4 \<and> 16 \<le> y)"
  shows "utf8_decode ((0xF0 + x) # (0x80 + y) # (0x80 + z) # (0x80 + w) # bs)
           = (x * 262144 + y * 4096 + z * 64 + w) # utf8_decode bs"
proof -
  have b: "0xF0 \<le> 0xF0 + x" "0xF0 + x < 0xF5" using assms by linarith+
  have v: "(0xF0 + x - 0xF0) * 262144 + (0x80 + y - 0x80) * 4096 + (0x80 + z - 0x80) * 64
             + (0x80 + w - 0x80) = x * 262144 + y * 4096 + z * 64 + w" by simp
  have c: "\<not> (\<not> is_cont (0x80 + y) \<or> (0xF0 + x = 0xF0 \<and> 0x80 + y < 0x90)
              \<or> (0xF0 + x = 0xF4 \<and> 0x90 \<le> 0x80 + y))"
    using assms is_cont_add[OF assms(2)] by auto
  have c3: "\<not> \<not> is_cont (0x80 + z)" using is_cont_add[OF assms(3)] by simp
  show ?thesis
    unfolding utf8_decode_4[OF b] list.case if_not_P[OF c] if_not_P[OF c3] v
    using is_cont_add[OF assms(4)] by (simp only: if_True)
qed

lemma utf8_decode_encode_cp:
  assumes "scalar c"
  shows "utf8_decode (utf8_encode_cp c @ bs) = c # utf8_decode bs"
proof -
  consider (one) "c < 0x80" | (two) "0x80 \<le> c" "c < 0x800" | (three) "0x800 \<le> c" "c < 0x10000"
    | (four) "0x10000 \<le> c" "c < 0x110000"
    using assms unfolding scalar_def by linarith
  then show ?thesis
  proof cases
    case one
    then show ?thesis by (simp add: utf8_encode_cp_def utf8_decode_1 del: utf8_decode.simps)
  next
    case two
    obtain x y where s: "c = x * 64 + y" "y < 64" "c div 64 = x" "c mod 64 = y" by (rule split2)
    have e: "utf8_encode_cp c = [0xC0 + x, 0x80 + y]"
      using two s(3,4) unfolding utf8_encode_cp_def by simp
    have "2 \<le> x" "x \<le> 31" using two s(1,2) by linarith+
    then show ?thesis unfolding e using dec_enc2[of x y bs] s(1,2) by simp
  next
    case three
    obtain x y z where s: "c = x * 4096 + y * 64 + z" "y < 64" "z < 64"
      "c div 4096 = x" "(c div 64) mod 64 = y" "c mod 64 = z" by (rule split3)
    have e: "utf8_encode_cp c = [0xE0 + x, 0x80 + y, 0x80 + z]"
      using three s(4,5,6) unfolding utf8_encode_cp_def by simp
    have "x \<le> 15" using three s(1,2,3) by linarith
    moreover have "\<not> (x = 0 \<and> y < 32)" using three s(1,2,3) by linarith
    moreover have "\<not> (x = 13 \<and> 32 \<le> y)" using assms s(1,2,3) unfolding scalar_def by linarith
    ultimately show ?thesis unfolding e using dec_enc3[of x y z bs] s(1,2,3) by simp
  next
    case four
    obtain x y z w where s: "c = x * 262144 + y * 4096 + z * 64 + w" "y < 64" "z < 64" "w < 64"
      "c div 262144 = x" "(c div 4096) mod 64 = y" "(c div 64) mod 64 = z" "c mod 64 = w"
      by (rule split4)
    have e: "utf8_encode_cp c = [0xF0 + x, 0x80 + y, 0x80 + z, 0x80 + w]"
      using four s(5,6,7,8) unfolding utf8_encode_cp_def by simp
    have "x \<le> 4" using four s(1,2,3,4) by linarith
    moreover have "\<not> (x = 0 \<and> y < 16)" using four s(1,2,3,4) by linarith
    moreover have "\<not> (x = 4 \<and> 16 \<le> y)" using four s(1,2,3,4) by linarith
    ultimately show ?thesis unfolding e using dec_enc4[of x y z w bs] s(1,2,3,4) by simp
  qed
qed

lemma utf8_decode_encode: "list_all scalar s \<Longrightarrow> utf8_decode (utf8_encode s) = s"
proof (induction s)
  case Nil
  show ?case by (simp add: utf8_encode_def)
next
  case (Cons c s)
  then have "utf8_decode (utf8_encode_cp c @ utf8_encode s) = c # utf8_decode (utf8_encode s)"
    using utf8_decode_encode_cp by simp
  then show ?case using Cons by (simp add: utf8_encode_def)
qed

lemma utf8_encode_cp_bytes: "scalar c \<Longrightarrow> list_all (\<lambda>b. b < 256) (utf8_encode_cp c)"
proof -
  assume a: "scalar c"
  consider (one) "c < 0x80" | (two) "0x80 \<le> c" "c < 0x800" | (three) "0x800 \<le> c" "c < 0x10000"
    | (four) "0x10000 \<le> c" "c < 0x110000"
    using a unfolding scalar_def by linarith
  then show ?thesis
  proof cases
    case one
    then show ?thesis by (simp add: utf8_encode_cp_def)
  next
    case two
    obtain x y where s: "c = x * 64 + y" "y < 64" "c div 64 = x" "c mod 64 = y" by (rule split2)
    have e: "utf8_encode_cp c = [0xC0 + x, 0x80 + y]"
      using two s(3,4) unfolding utf8_encode_cp_def by simp
    have "x \<le> 31" using two s(1,2) by linarith
    then show ?thesis unfolding e using s(2) by simp
  next
    case three
    obtain x y z where s: "c = x * 4096 + y * 64 + z" "y < 64" "z < 64"
      "c div 4096 = x" "(c div 64) mod 64 = y" "c mod 64 = z" by (rule split3)
    have e: "utf8_encode_cp c = [0xE0 + x, 0x80 + y, 0x80 + z]"
      using three s(4,5,6) unfolding utf8_encode_cp_def by simp
    have "x \<le> 15" using three s(1,2,3) by linarith
    then show ?thesis unfolding e using s(2,3) by simp
  next
    case four
    obtain x y z w where s: "c = x * 262144 + y * 4096 + z * 64 + w" "y < 64" "z < 64" "w < 64"
      "c div 262144 = x" "(c div 4096) mod 64 = y" "(c div 64) mod 64 = z" "c mod 64 = w"
      by (rule split4)
    have e: "utf8_encode_cp c = [0xF0 + x, 0x80 + y, 0x80 + z, 0x80 + w]"
      using four s(5,6,7,8) unfolding utf8_encode_cp_def by simp
    have "x \<le> 4" using four s(1,2,3,4) by linarith
    then show ?thesis unfolding e using s(2,3,4) by simp
  qed
qed

lemma unquote_plus_alt: "unquote_plus s = unquote (map plus_to_space s)"
  by (simp add: unquote_plus_def plus_to_space_def[abs_def])

lemma hexchar_all:
  "list_all (\<lambda>n. hexchar n \<in> set hexdig \<and> hexval (hexchar n) = n \<and> hexchar n \<in> set always_safe)
     [0 ..< 16]"
  by code_simp

lemma hexchar_props:
  assumes "n < 16"
  shows "hexchar n \<in> set hexdig \<and> hexval (hexchar n) = n \<and> hexchar n \<in> set always_safe"
proof -
  have "n \<in> set [0 ..< 16]" using assms by simp
  then show ?thesis using hexchar_all unfolding list_all_iff by blast
qed

lemma safe_char_props:
  assumes "c \<in> set always_safe"
  shows "c \<noteq> CHR ''+'' \<and> c \<noteq> CHR ''%'' \<and> c \<noteq> CHR ''&'' \<and> c \<noteq> CHR ''=''
         \<and> c \<noteq> CHR ''#'' \<and> c \<noteq> CHR ''?'' \<and> (of_char c :: nat) < 128"
  using assms unfolding always_safe_def by auto

lemma quote_byte_cases:
  assumes "b < 256"
  obtains (space) "b = 32" "quote_byte b = ''+''"
  | (safe) "b \<noteq> 32" "b < 128" "char_of b \<in> set always_safe" "quote_byte b = [char_of b]"
  | (hex) "quote_byte b = [CHR ''%'', hexchar (b div 16), hexchar (b mod 16)]"
      "b div 16 < 16" "b mod 16 < 16"
proof -
  have "b div 16 < 16" using assms by (simp add: less_mult_imp_div_less)
  moreover have "b mod 16 < 16" by simp
  ultimately have d: "b div 16 < 16" "b mod 16 < 16" by blast+
  show ?thesis
  proof (cases "b = 32")
    case True
    then show ?thesis using space by (simp add: quote_byte_def)
  next
    case n: False
    show ?thesis
    proof (cases "b < 128 \<and> char_of b \<in> set always_safe")
      case True
      then show ?thesis using n safe by (simp add: quote_byte_def)
    next
      case False
      then show ?thesis using n hex d by (simp add: quote_byte_def)
    qed
  qed
qed

lemma quote_byte_chars: "b < 256 \<Longrightarrow> list_all quoted_char (quote_byte b)"
proof -
  assume a: "b < 256"
  then show ?thesis
  proof (cases rule: quote_byte_cases)
    case space
    then show ?thesis by (simp add: quoted_char_def)
  next
    case safe
    then show ?thesis by (simp add: quoted_char_def)
  next
    case hex
    then show ?thesis using hexchar_props[of "b div 16"] hexchar_props[of "b mod 16"]
      by (simp add: quoted_char_def)
  qed
qed

lemma unquote_quote_byte:
  assumes "b < 256"
  shows "unquote_to_bytes (map plus_to_space (quote_byte b @ s))
           = b # unquote_to_bytes (map plus_to_space s)"
  using assms
proof (cases rule: quote_byte_cases)
  case space
  then show ?thesis by (simp add: plus_to_space_def)
next
  case safe
  have "char_of b \<noteq> CHR ''+''" "char_of b \<noteq> CHR ''%''"
    using safe_char_props[OF safe(3)] by blast+
  moreover have "of_char (char_of b :: char) = b" using assms by simp
  ultimately show ?thesis unfolding safe(4) by (simp add: plus_to_space_def)
next
  case hex
  let ?h1 = "hexchar (b div 16)"
  let ?h2 = "hexchar (b mod 16)"
  have h1: "?h1 \<in> set hexdig" "hexval ?h1 = b div 16" "?h1 \<in> set always_safe"
    using hexchar_props[OF hex(2)] by blast+
  have h2: "?h2 \<in> set hexdig" "hexval ?h2 = b mod 16" "?h2 \<in> set always_safe"
    using hexchar_props[OF hex(3)] by blast+
  have p: "plus_to_space ?h1 = ?h1" "plus_to_space ?h2 = ?h2"
    using safe_char_props[OF h1(3)] safe_char_props[OF h2(3)] by (simp_all add: plus_to_space_def)
  have "16 * (b div 16) + b mod 16 = b" by simp
  then show ?thesis unfolding hex(1) using h1 h2 p by (simp add: plus_to_space_def)
qed

lemma unquote_quote_bytes:
  "list_all (\<lambda>b. b < 256) bs \<Longrightarrow>
   unquote_to_bytes (map plus_to_space (concat (map quote_byte bs))) = bs"
proof (induction bs)
  case Nil
  show ?case by simp
next
  case (Cons b bs)
  then have "unquote_to_bytes (map plus_to_space (quote_byte b @ concat (map quote_byte bs)))
      = b # unquote_to_bytes (map plus_to_space (concat (map quote_byte bs)))"
    by (intro unquote_quote_byte) simp
  then show ?case using Cons by (simp del: unquote_to_bytes.simps)
qed

lemma utf8_encode_bytes: "list_all scalar s \<Longrightarrow> list_all (\<lambda>b. b < 256) (utf8_encode s)"
  by (induction s) (simp_all add: utf8_encode_def utf8_encode_cp_bytes)

lemma quote_bytes_chars:
  "list_all (\<lambda>b. b < 256) bs \<Longrightarrow> list_all quoted_char (concat (map quote_byte bs))"
  by (induction bs) (simp_all add: quote_byte_chars)

lemma quote_plus_chars: "list_all scalar s \<Longrightarrow> list_all quoted_char (quote_plus s)"
  unfolding quote_plus_def by (intro quote_bytes_chars utf8_encode_bytes)

lemma ascii_runs_ascii:
  "s \<noteq> [] \<Longrightarrow> list_all is_ascii s \<Longrightarrow> ascii_runs s = [(True, s)]"
proof (induction s)
  case Nil
  then show ?case by simp
next
  case (Cons c s)
  show ?case
  proof (cases s)
    case Nil
    then show ?thesis using Cons.prems by (simp add: is_ascii_def)
  next
    case (Cons d t)
    then have "ascii_runs s = [(True, s)]" using Cons.IH Cons.prems by simp
    then show ?thesis using Cons.prems by (simp add: is_ascii_def)
  qed
qed

lemma unquote_ascii: "list_all is_ascii s \<Longrightarrow> unquote s = utf8_decode (unquote_to_bytes s)"
proof (cases "s = []")
  case True
  then show ?thesis by (simp add: unquote_def)
next
  case False
  assume "list_all is_ascii s"
  then show ?thesis using False by (simp add: unquote_def ascii_runs_ascii)
qed

lemma quoted_char_ascii: "quoted_char c \<Longrightarrow> is_ascii (plus_to_space c)"
  unfolding quoted_char_def is_ascii_def plus_to_space_def
  using safe_char_props[of c] by auto

lemma unquote_plus_quote_plus:
  assumes "list_all scalar s"
  shows "unquote_plus (quote_plus s) = s"
proof -
  have "list_all quoted_char (quote_plus s)" using assms by (rule quote_plus_chars)
  then have "list_all is_ascii (map plus_to_space (quote_plus s))"
    unfolding list_all_iff using quoted_char_ascii by auto
  then have "unquote_plus (quote_plus s)
      = utf8_decode (unquote_to_bytes (map plus_to_space (quote_plus s)))"
    unfolding unquote_plus_alt by (rule unquote_ascii)
  also have "\<dots> = utf8_decode (utf8_encode s)"
    unfolding quote_plus_def using unquote_quote_bytes[OF utf8_encode_bytes[OF assms]] by simp
  also have "\<dots> = s" using assms by (rule utf8_decode_encode)
  finally show ?thesis .
qed

lemma cps_scalar: "list_all scalar (cps s)"
proof -
  have "scalar (of_char c)" for c :: char
    using nat_of_char_less_256[of c] unfolding scalar_def by linarith
  then show ?thesis by (simp add: cps_def list_all_iff)
qed

lemma unquote_scalar: "list_all scalar (unquote s)"
proof -
  have a: "x \<in> set (utf8_decode bs) \<Longrightarrow> scalar x" for x bs
    using utf8_decode_scalar[of bs] by (simp add: list_all_iff)
  have b: "x \<in> set (cps r) \<Longrightarrow> scalar x" for x r
    using cps_scalar[of r] by (simp add: list_all_iff)
  show ?thesis unfolding unquote_def list_all_iff using a b by (auto split: if_splits)
qed

lemma unquote_plus_scalar: "list_all scalar (unquote_plus s)"
  unfolding unquote_plus_alt by (rule unquote_scalar)

lemma parse_qsl_scalar:
  "(k, v) \<in> set (parse_qsl qs) \<Longrightarrow> list_all scalar k \<and> list_all scalar v"
  unfolding parse_qsl_def Let_def
  by (auto simp: unquote_plus_scalar split: if_splits)

section \<open>The image classifier\<close>

lemma image_name_not_skipped:
  "list_ex (\<lambda>sfx. suffix (CHR ''.'' # sfx) s) image_suffixes \<Longrightarrow> s \<noteq> [] \<and> s \<noteq> ''.''"
  by (auto simp: image_suffixes_def suffix_def)

lemma is_image_intro:
  assumes p: "p = d @ s @ t"
    and d: "d = [] \<or> last d = CHR ''/''"
    and s: "CHR ''/'' \<notin> set s"
    and img: "list_ex (\<lambda>sfx. suffix (CHR ''.'' # sfx) s) image_suffixes"
    and t: "trailing t"
  shows "is_image p"
proof -
  define keep where "keep = (\<lambda>x::string. x \<noteq> [] \<and> x \<noteq> ''.'')"
  have ks: "keep s" using image_name_not_skipped[OF img] by (simp add: keep_def)
  have st: "\<exists>r. split_on CHR ''/'' (s @ t) = s # r \<and> filter keep r = []"
  proof (cases t)
    case Nil
    then show ?thesis using s by (simp add: split_on_no_sep)
  next
    case (Cons c t')
    then have c: "c = CHR ''/''" using t by (simp add: trailing_def)
    have "split_on CHR ''/'' (s @ CHR ''/'' # t') = split_on CHR ''/'' s @ split_on CHR ''/'' t'"
      by (rule split_on_app)
    moreover have "list_all skipped (split_on CHR ''/'' t')"
      using t Cons c by (simp add: trailing_def)
    then have "filter keep (split_on CHR ''/'' t') = []"
      by (auto simp: filter_empty_conv list_all_iff skipped_def keep_def)
    ultimately show ?thesis using Cons c s by (simp add: split_on_no_sep)
  qed
  then obtain r where r: "split_on CHR ''/'' (s @ t) = s # r" "filter keep r = []" by blast
  have "\<exists>l. filter keep (split_on CHR ''/'' p) = l @ [s]"
  proof (cases "d = []")
    case True
    then show ?thesis using p r ks by simp
  next
    case False
    then have "d = butlast d @ [CHR ''/'']" using d by (metis append_butlast_last_id)
    then have "p = butlast d @ CHR ''/'' # (s @ t)" using p by (metis append.assoc append_Cons append_Nil)
    then have "split_on CHR ''/'' p = split_on CHR ''/'' (butlast d) @ s # r"
      using r by (simp add: split_on_app)
    then show ?thesis using r ks by simp
  qed
  then obtain l where l: "filter keep (split_on CHR ''/'' p) = l @ [s]" by blast
  have "posix_name p = s"
    using l unfolding posix_name_def keep_def by (cases "l @ [s]") (simp_all del: last.simps, metis last_snoc)
  then show ?thesis using img by (simp add: is_image_def endswith_def)
qed

lemma is_image_elim:
  assumes "is_image p"
  shows "\<exists>d s t. p = d @ s @ t \<and> (d = [] \<or> last d = CHR ''/'') \<and> CHR ''/'' \<notin> set s
            \<and> list_ex (\<lambda>sfx. suffix (CHR ''.'' # sfx) s) image_suffixes \<and> trailing t"
proof -
  define keep where "keep = (\<lambda>x::string. x \<noteq> [] \<and> x \<noteq> ''.'')"
  define cs where "cs = split_on CHR ''/'' p"
  have img: "list_ex (\<lambda>sfx. suffix (CHR ''.'' # sfx) (posix_name p)) image_suffixes"
    using assms by (simp add: is_image_def endswith_def)
  then have ne: "posix_name p \<noteq> []" using image_name_not_skipped by blast
  then obtain x xs where f: "filter keep cs = x # xs" and n: "posix_name p = last (x # xs)"
    unfolding posix_name_def keep_def cs_def
    by (cases "filter (\<lambda>x. x \<noteq> [] \<and> x \<noteq> ''.'') (split_on CHR ''/'' p)") auto
  from filter_last_decomp[OF f] obtain l1 l2 where
    l: "cs = l1 @ last (x # xs) # l2" and l2: "list_all (\<lambda>y. \<not> keep y) l2" by blast
  define s where "s = posix_name p"
  have cs: "cs = l1 @ s # l2" using l n by (simp add: s_def)
  have nosep: "list_all (\<lambda>x. CHR ''/'' \<notin> set x) cs"
    unfolding cs_def list_all_iff by (auto dest: split_on_no_sep_in)
  have pj: "p = join ''/'' cs" by (simp add: cs_def join_split_on)
  define d where "d = (if l1 = [] then [] else join ''/'' l1 @ ''/'')"
  define t where "t = (if l2 = [] then [] else CHR ''/'' # join ''/'' l2)"
  have j2: "join ''/'' (s # l2) = s @ t"
    by (cases l2) (simp_all add: t_def)
  have "p = d @ s @ t"
  proof (cases "l1 = []")
    case True
    then show ?thesis using pj cs j2 by (simp add: d_def)
  next
    case False
    then have "join ''/'' (l1 @ s # l2) = join ''/'' l1 @ ''/'' @ join ''/'' (s # l2)"
      by (intro join_append) simp_all
    then show ?thesis using pj cs j2 False by (simp add: d_def)
  qed
  moreover have "d = [] \<or> last d = CHR ''/''" by (simp add: d_def)
  moreover have "CHR ''/'' \<notin> set s" using nosep cs by simp
  moreover have "trailing t"
  proof (cases "l2 = []")
    case True
    then show ?thesis by (simp add: t_def trailing_def skipped_def)
  next
    case False
    have "list_all (\<lambda>x. CHR ''/'' \<notin> set x) l2" using nosep cs by simp
    then have "split_on CHR ''/'' (join ''/'' l2) = l2" using False by (intro split_on_join)
    moreover have "list_all skipped l2"
      using l2 by (auto simp: list_all_iff keep_def skipped_def)
    ultimately show ?thesis using False by (simp add: t_def trailing_def skipped_def)
  qed
  ultimately show ?thesis using img unfolding s_def by blast
qed

text \<open>
  Claim C8, as amended. \<open>is_image p\<close> holds exactly when the last component of \<open>p\<close>
  that is neither empty nor \<open>.\<close> ends with a dot and one of the six extensions,
  compared case-sensitively: \<open>p\<close> is a directory part \<open>d\<close> (empty or ending in a
  slash), a slash-free name \<open>s\<close> with such an ending, and a tail \<open>t\<close> of slashes and
  \<open>.\<close> components only. The directory part is arbitrary.
\<close>

theorem is_image_final_component:
  "is_image p \<longleftrightarrow>
     (\<exists>d s t. p = d @ s @ t \<and> (d = [] \<or> last d = CHR ''/'') \<and> CHR ''/'' \<notin> set s
        \<and> list_ex (\<lambda>sfx. suffix (CHR ''.'' # sfx) s) image_suffixes \<and> trailing t)"
  using is_image_intro is_image_elim by blast

text \<open>
  Claim C8 as stated fails: in \<open>/a.png/\<close> the final path segment (behind the last slash)
  is empty, yet the path is classified as an image, since the trailing slash is skipped.
\<close>

theorem is_image_trailing_slash_counterexample:
  "is_image ''/a.png/'' \<and> \<not> spec_is_image ''/a.png/''"
  by code_simp

section \<open>Dictionaries\<close>

lemma dict_set_keys:
  "map fst (dict_set d k v) = (if k \<in> fst ` set d then map fst d else map fst d @ [k])"
  by (induction d) (force simp: image_iff)+

lemma dict_set_distinct: "distinct (map fst d) \<Longrightarrow> distinct (map fst (dict_set d k v))"
  by (simp add: dict_set_keys)

lemma dict_set_map_of: "map_of (dict_set d k v) = (map_of d)(k \<mapsto> v)"
  by (induction d) (auto simp: fun_eq_iff)

lemma dict_set_subset: "set (dict_set d k v) \<subseteq> insert (k, v) (set d)"
  by (induction d) (auto split: if_splits)

lemma dict_update_distinct:
  "distinct (map fst d) \<Longrightarrow> distinct (map fst (dict_update d items))"
  unfolding dict_update_def
  by (induction items arbitrary: d) (auto simp: dict_set_distinct)

lemma dict_update_map_of:
  "map_of (dict_update d items) = map_of d ++ map_of (rev items)"
  unfolding dict_update_def
proof (induction items arbitrary: d)
  case Nil
  show ?case by simp
next
  case (Cons kv items)
  obtain k v where kv: "kv = (k, v)" by (cases kv)
  have "map_of (foldl (\<lambda>d (k, v). dict_set d k v) (dict_set d k v) items)
      = map_of (dict_set d k v) ++ map_of (rev items)"
    by (rule Cons.IH)
  also have "\<dots> = map_of d ++ map_of (rev items @ [(k, v)])"
    by (simp add: dict_set_map_of fun_eq_iff map_add_def split: option.splits)
  finally show ?case by (simp add: kv)
qed

lemma dict_update_subset: "set (dict_update d items) \<subseteq> set d \<union> set items"
  unfolding dict_update_def
proof (induction items arbitrary: d)
  case Nil
  show ?case by simp
next
  case (Cons kv items)
  obtain k v where kv: "kv = (k, v)" by (cases kv)
  have "set (foldl (\<lambda>d (k, v). dict_set d k v) (dict_set d k v) items)
      \<subseteq> set (dict_set d k v) \<union> set items"
    by (rule Cons.IH)
  then show ?case using dict_set_subset[of d k v] by (auto simp: kv)
qed

lemma dict_update_not_Nil: "items \<noteq> [] \<Longrightarrow> dict_update d items \<noteq> []"
proof -
  assume "items \<noteq> []"
  then obtain ys k v where "items = ys @ [(k, v)]"
    by (cases items rule: rev_cases) auto
  then have "map_of (rev items) k = Some v" by simp
  then have "map_of (dict_update d items) k = Some v"
    by (simp add: dict_update_map_of)
  then show ?thesis by auto
qed

lemma dict_of_distinct: "distinct (map fst (dict_of items))"
  unfolding dict_of_def by (rule dict_update_distinct) simp

lemma dict_of_map_of: "map_of (dict_of items) = map_of (rev items)"
  unfolding dict_of_def by (simp add: dict_update_map_of)

lemma dict_of_subset: "set (dict_of items) \<subseteq> set items"
  unfolding dict_of_def using dict_update_subset[of "[]" items] by simp

section \<open>The query of the annotated URL\<close>

lemma add_utm_to_url_eq:
  "parses_to ok url p \<Longrightarrow>
   add_utm_to_url ok url source medium campaign
     = Inr (geturl (p\<lparr>query := urlencode (merged_params (query p) source medium campaign)\<rparr>))"
  by (simp add: parses_to_def add_utm_to_url_def merged_params_def Let_def)

lemma quoted_char_not_delim:
  "quoted_char c \<Longrightarrow> c \<noteq> CHR ''&'' \<and> c \<noteq> CHR ''='' \<and> c \<noteq> CHR ''#'' \<and> c \<noteq> CHR ''?''"
  unfolding quoted_char_def using safe_char_props[of c] by auto

lemma quote_plus_no_delim:
  assumes "list_all scalar s"
  shows "CHR ''&'' \<notin> set (quote_plus s)" "CHR ''='' \<notin> set (quote_plus s)"
    "CHR ''#'' \<notin> set (quote_plus s)" "CHR ''?'' \<notin> set (quote_plus s)"
  using quote_plus_chars[OF assms] quoted_char_not_delim unfolding list_all_iff by blast+

lemma quote_plus_inj:
  "list_all scalar a \<Longrightarrow> list_all scalar b \<Longrightarrow> quote_plus a = quote_plus b \<Longrightarrow> a = b"
  using unquote_plus_quote_plus by metis

lemma query_field_no_amp:
  "list_all scalar k \<Longrightarrow> list_all scalar v \<Longrightarrow> CHR ''&'' \<notin> set (query_field k v)"
  using quote_plus_no_delim(1) by (simp add: query_field_def)

lemma takeWhile_sep: "e \<notin> set a \<Longrightarrow> takeWhile (\<lambda>c. c \<noteq> e) (a @ e # r) = a"
  by (induction a) auto


lemma prefix_upto_sep:
  assumes "e \<notin> set a" "e \<notin> set b"
  shows "prefix (a @ [e]) (b @ e # w) \<longleftrightarrow> a = b"
proof
  assume "prefix (a @ [e]) (b @ e # w)"
  then obtain r where "b @ e # w = a @ e # r" by (auto simp: prefix_def)
  then have "takeWhile (\<lambda>c. c \<noteq> e) (b @ e # w) = takeWhile (\<lambda>c. c \<noteq> e) (a @ e # r)" by simp
  then show "a = b" using assms by (simp add: takeWhile_sep)
next
  assume "a = b"
  then show "prefix (a @ [e]) (b @ e # w)" by (simp add: prefix_def)
qed

lemma query_field_prefix:
  assumes "list_all scalar k" "list_all scalar k'"
  shows "prefix (quote_plus k @ ''='') (query_field k' v) \<longleftrightarrow> k' = k"
proof -
  have "prefix (quote_plus k @ [CHR ''='']) (quote_plus k' @ CHR ''='' # quote_plus v)
          \<longleftrightarrow> quote_plus k = quote_plus k'"
    using quote_plus_no_delim(2)[OF assms(1)] quote_plus_no_delim(2)[OF assms(2)]
    by (rule prefix_upto_sep)
  then show ?thesis using quote_plus_inj[OF assms] by (auto simp: query_field_def)
qed

lemma urlencode_fields:
  assumes "items \<noteq> []" "list_all (\<lambda>(k, v). list_all scalar k \<and> list_all scalar v) items"
  shows "split_on CHR ''&'' (urlencode items) = map (\<lambda>(k, v). query_field k v) items"
proof -
  let ?l = "map (\<lambda>(k, v). query_field k v) items"
  have e: "urlencode items = join [CHR ''&''] ?l"
    by (simp add: urlencode_def query_field_def)
  have "list_all (\<lambda>x. CHR ''&'' \<notin> set x) ?l"
    using assms(2) query_field_no_amp by (auto simp: list_all_iff)
  moreover have "?l \<noteq> []" using assms(1) by simp
  ultimately show ?thesis unfolding e by (intro split_on_join)
qed

lemma filter_key:
  "distinct (map fst d) \<Longrightarrow>
   filter (\<lambda>kv. fst kv = k) d = (case map_of d k of None \<Rightarrow> [] | Some w \<Rightarrow> [(k, w)])"
proof (induction d)
  case Nil
  show ?case by simp
next
  case (Cons a d)
  obtain k' v' where a: "a = (k', v')" by (cases a)
  show ?case
  proof (cases "k' = k")
    case True
    then have "k \<notin> fst ` set d" using Cons.prems a by auto
    then have "filter (\<lambda>kv. fst kv = k) d = []" by (auto simp: filter_empty_conv)
    then show ?thesis using True a by simp
  next
    case False
    then show ?thesis using Cons a by simp
  qed
qed

lemma utm_scalar: "(k, v) \<in> set (utm source medium campaign) \<Longrightarrow> list_all scalar k \<and> list_all scalar v"
  by (auto simp: utm_def cps_scalar)


lemma merged_scalar:
  "list_all (\<lambda>(k, v). list_all scalar k \<and> list_all scalar v) (merged_params q source medium campaign)"
proof -
  have "(k, v) \<in> set (merged_params q source medium campaign) \<Longrightarrow> list_all scalar k \<and> list_all scalar v"
    for k v
    using dict_update_subset[of "dict_of (parse_qsl q)" "utm source medium campaign"]
      dict_of_subset[of "parse_qsl q"] parse_qsl_scalar[of k v q] utm_scalar[of k v source medium campaign]
    unfolding merged_params_def by blast
  then show ?thesis unfolding list_all_iff by auto
qed

lemma merged_not_Nil: "merged_params q source medium campaign \<noteq> []"
  unfolding merged_params_def by (rule dict_update_not_Nil) (simp add: utm_def)

lemma merged_distinct: "distinct (map fst (merged_params q source medium campaign))"
  unfolding merged_params_def by (intro dict_update_distinct dict_of_distinct)

lemma merged_map_of:
  "map_of (merged_params q source medium campaign)
     = map_of (rev (parse_qsl q)) ++ map_of (rev (utm source medium campaign))"
  unfolding merged_params_def by (simp add: dict_update_map_of dict_of_map_of)

lemma merged_fields:
  "split_on CHR ''&'' (urlencode (merged_params q source medium campaign))
     = map (\<lambda>(k, v). query_field k v) (merged_params q source medium campaign)"
  by (rule urlencode_fields[OF merged_not_Nil merged_scalar])

lemma merged_fields_named:
  assumes "list_all scalar k"
  shows "filter (prefix (quote_plus k @ ''=''))
           (split_on CHR ''&'' (urlencode (merged_params q source medium campaign)))
         = (case map_of (merged_params q source medium campaign) k of
              None \<Rightarrow> [] | Some w \<Rightarrow> [query_field k w])"
proof -
  let ?d = "merged_params q source medium campaign"
  have "filter (prefix (quote_plus k @ ''='')) (map (\<lambda>(k, v). query_field k v) ?d)
      = map (\<lambda>(k, v). query_field k v) (filter (\<lambda>kv. fst kv = k) ?d)"
    unfolding filter_map comp_def
  proof (rule arg_cong[where f = "map (\<lambda>(k, v). query_field k v)"], rule filter_cong[OF refl])
    fix kv assume "kv \<in> set ?d"
    then obtain k' v' where kv: "kv = (k', v')" and "list_all scalar k'"
      using merged_scalar[of q source medium campaign] by (cases kv) (auto simp: list_all_iff)
    then show "prefix (quote_plus k @ ''='') (case kv of (k, v) \<Rightarrow> query_field k v) = (fst kv = k)"
      using query_field_prefix[OF assms, of k' v'] by simp
  qed
  then show ?thesis unfolding merged_fields filter_key[OF merged_distinct]
    by (simp split: option.splits)
qed

lemma parse_qsl_set:
  assumes "(k, v) \<in> set (parse_qsl qs)"
  shows "\<exists>nv \<in> set (split_on CHR ''&'' qs).
           raw_value nv \<noteq> [] \<and> k = unquote_plus (raw_name nv) \<and> v = unquote_plus (raw_value nv)"
  using assms unfolding parse_qsl_def Let_def raw_name_def raw_value_def
  by (auto split: if_splits)

lemma map_of_rev_None: "map_of (rev l) k = None \<longleftrightarrow> k \<notin> fst ` set l"
  by (simp add: map_of_eq_None_iff)

lemma utm_key_map_of:
  "k \<notin> fst ` set (utm source medium campaign) \<Longrightarrow>
   map_of (merged_params q source medium campaign) k = map_of (rev (parse_qsl q)) k"
  unfolding merged_map_of map_add_def by (simp add: map_of_rev_None[THEN iffD2])


lemma merged_field_origin:
  assumes "f \<in> set (split_on CHR ''&'' (urlencode (merged_params q source medium campaign)))"
  shows "(\<exists>(k, w) \<in> set (utm source medium campaign). f = query_field k w)
       \<or> (\<exists>nv \<in> set (split_on CHR ''&'' q). raw_value nv \<noteq> []
             \<and> f = query_field (unquote_plus (raw_name nv)) (unquote_plus (raw_value nv)))"
proof -
  from assms obtain k v where kv: "(k, v) \<in> set (merged_params q source medium campaign)"
    and f: "f = query_field k v"
    unfolding merged_fields by auto
  have "(k, v) \<in> set (utm source medium campaign) \<or> (k, v) \<in> set (parse_qsl q)"
    using kv dict_update_subset[of "dict_of (parse_qsl q)" "utm source medium campaign"]
      dict_of_subset[of "parse_qsl q"]
    unfolding merged_params_def by blast
  then show ?thesis
  proof
    assume "(k, v) \<in> set (utm source medium campaign)"
    then show ?thesis using f by blast
  next
    assume "(k, v) \<in> set (parse_qsl q)"
    then show ?thesis using parse_qsl_set[of k v q] f by blast
  qed
qed



text \<open>
  Claim C10. A field of the query with an empty value or without \<open>=\<close> leaves no field
  in the output: no output field has its name (unless the name is a UTM key or a non-blank
  parameter has the same name, which then give the field), and every field of the output
  query is a UTM field or the encoding of an input field \<open>name=value\<close> whose value is
  not empty.
\<close>

theorem blank_parameters_dropped:
  assumes "parses_to ok url p"
    and "nv \<in> set (split_on CHR ''&'' (query p))" and "raw_value nv = []"
    and "unquote_plus (raw_name nv) \<notin> fst ` set (parse_qsl (query p))"
    and "unquote_plus (raw_name nv) \<notin> fst ` set (utm source medium campaign)"
  shows "\<exists>q. add_utm_to_url ok url source medium campaign = Inr (geturl (p\<lparr>query := q\<rparr>))
           \<and> filter (prefix (quote_plus (unquote_plus (raw_name nv)) @ ''=''))
                 (split_on CHR ''&'' q) = []
           \<and> list_all (\<lambda>f. (\<exists>(k, w) \<in> set (utm source medium campaign). f = query_field k w)
                   \<or> (\<exists>nv' \<in> set (split_on CHR ''&'' (query p)). raw_value nv' \<noteq> []
                         \<and> f = query_field (unquote_plus (raw_name nv'))
                                 (unquote_plus (raw_value nv'))))
                (split_on CHR ''&'' q)"
proof -
  let ?n = "unquote_plus (raw_name nv)"
  let ?q = "urlencode (merged_params (query p) source medium campaign)"
  have "map_of (merged_params (query p) source medium campaign) ?n = None"
    using utm_key_map_of[OF assms(5), of "query p"] assms(4) by (simp add: map_of_rev_None)
  then have 1: "filter (prefix (quote_plus ?n @ ''='')) (split_on CHR ''&'' ?q) = []"
    using merged_fields_named[OF unquote_plus_scalar, of "raw_name nv" "query p" source medium campaign]
    by simp
  have 2: "list_all (\<lambda>f. (\<exists>(k, w) \<in> set (utm source medium campaign). f = query_field k w)
                   \<or> (\<exists>nv' \<in> set (split_on CHR ''&'' (query p)). raw_value nv' \<noteq> []
                         \<and> f = query_field (unquote_plus (raw_name nv'))
                                 (unquote_plus (raw_value nv'))))
                (split_on CHR ''&'' ?q)"
    unfolding list_all_iff using merged_field_origin by blast
  show ?thesis using add_utm_to_url_eq[OF assms(1)] 1 2 by blast
qed

section \<open>The query of the annotated URL: instances\<close>




theorem blank_parameters_dropped_witness:
  "parses_to (\<lambda>_. True) (Str ''http://a/?flag=&x=1'')
     \<lparr>scheme = ''http'', netloc = ''a'', path = ''/'', params = [], query = ''flag=&x=1'',
      fragment = []\<rparr>
   \<and> ''flag='' \<in> set (split_on CHR ''&'' ''flag=&x=1'') \<and> raw_value ''flag='' = []
   \<and> unquote_plus (raw_name ''flag='') \<notin> fst ` set (parse_qsl ''flag=&x=1'')
   \<and> unquote_plus (raw_name ''flag='') \<notin> fst ` set (utm ''s'' ''m'' ''c'')
   \<and> (\<exists>q. add_utm_to_url (\<lambda>_. True) (Str ''http://a/?flag=&x=1'') ''s'' ''m'' ''c''
            = Inr (geturl (\<lparr>scheme = ''http'', netloc = ''a'', path = ''/'', params = [],
                             query = ''flag=&x=1'', fragment = []\<rparr>\<lparr>query := q\<rparr>))
          \<and> filter (prefix (quote_plus (unquote_plus (raw_name ''flag='')) @ ''=''))
                (split_on CHR ''&'' q) = [])"
proof -
  let ?p = "\<lparr>scheme = ''http'', netloc = ''a'', path = ''/'', params = [], query = ''flag=&x=1'',
      fragment = []\<rparr>"
  have q: "query ?p = ''flag=&x=1''" by simp
  have h1: "parses_to (\<lambda>_. True) (Str ''http://a/?flag=&x=1'') ?p"
    by code_simp
  have h2: "''flag='' \<in> set (split_on CHR ''&'' ''flag=&x=1'')" by code_simp
  have h3: "raw_value ''flag='' = []" by code_simp
  have h4: "unquote_plus (raw_name ''flag='') \<notin> fst ` set (parse_qsl ''flag=&x=1'')"
    by code_simp
  have h5: "unquote_plus (raw_name ''flag='') \<notin> fst ` set (utm ''s'' ''m'' ''c'')"
    by code_simp
  have h2': "''flag='' \<in> set (split_on CHR ''&'' (query ?p))" unfolding q by (rule h2)
  have h4': "unquote_plus (raw_name ''flag='') \<notin> fst ` set (parse_qsl (query ?p))"
    unfolding q by (rule h4)
  from blank_parameters_dropped[OF h1 h2' h3 h4' h5]
  obtain q' where
    a: "add_utm_to_url (\<lambda>_. True) (Str ''http://a/?flag=&x=1'') ''s'' ''m'' ''c''
          = Inr (geturl (?p\<lparr>query := q'\<rparr>))"
    and b: "filter (prefix (quote_plus (unquote_plus (raw_name ''flag='')) @ ''=''))
              (split_on CHR ''&'' q') = []"
    by (elim exE conjE)
  have c: "\<exists>q. add_utm_to_url (\<lambda>_. True) (Str ''http://a/?flag=&x=1'') ''s'' ''m'' ''c''
            = Inr (geturl (?p\<lparr>query := q\<rparr>))
          \<and> filter (prefix (quote_plus (unquote_plus (raw_name ''flag='')) @ ''=''))
                (split_on CHR ''&'' q) = []"
    by (rule exI[of _ q'], rule conjI[OF a b])
  show ?thesis
    by (rule conjI[OF h1 conjI[OF h2 conjI[OF h3 conjI[OF h4 conjI[OF h5 c]]]]])
qed

section \<open>The URL locator\<close>

lemma first_some_rev_upt:
  "first_some (map (\<lambda>k. Some (f k)) (rev [1 ..< Suc n])) = (if n = 0 then None else Some (f n))"
  by (cases n) simp_all

lemma re_match_plus_last:
  "re_match [Plus a] s =
     (if takeWhile (atom_ok a) s = [] then None else Some (length (takeWhile (atom_ok a) s)))"
proof -
  have "re_match [Plus a] s =
        first_some (map (\<lambda>k. Some (k + 0)) (rev [1 ..< Suc (length (takeWhile (atom_ok a) s))]))"
    by simp
  then show ?thesis unfolding first_some_rev_upt by simp
qed

lemma re_match_lits:
  "re_match (map (\<lambda>c. One (Chr c)) w @ r) s =
     (if prefix w s then map_option (\<lambda>n. length w + n) (re_match r (drop (length w) s)) else None)"
proof (induction w arbitrary: s)
  case Nil
  show ?case by (cases "re_match r s") simp_all
next
  case (Cons a w)
  show ?case
  proof (cases s)
    case Nil
    then show ?thesis by simp
  next
    case (Cons x xs)
    then show ?thesis using Cons.IH[of xs]
      by (auto simp: option.map_comp comp_def)
  qed
qed

lemma re_match_tail:
  "re_match [One (Chr CHR '':''), One (Chr CHR ''/''), One (Chr CHR ''/''), Plus (Cls url_char)] s =
     (if prefix ''://'' s \<and> takeWhile url_char (drop 3 s) \<noteq> []
      then Some (3 + length (takeWhile url_char (drop 3 s))) else None)"
proof -
  have l3: "length ''://'' = 3" by simp
  have a: "atom_ok (Cls url_char) = url_char" by (rule ext) simp
  have "re_match (map (\<lambda>c. One (Chr c)) ''://'' @ [Plus (Cls url_char)]) s =
     (if prefix ''://'' s
      then map_option (\<lambda>n. 3 + n) (re_match [Plus (Cls url_char)] (drop 3 s))
      else None)"
    using re_match_lits[of "''://''" "[Plus (Cls url_char)]" s] unfolding l3 .
  then show ?thesis unfolding re_match_plus_last a by simp
qed

lemma re_match_url_pattern: "re_match url_pattern s = url_at s"
proof -
  let ?tail = "[One (Chr CHR '':''), One (Chr CHR ''/''), One (Chr CHR ''/''), Plus (Cls url_char)]"
  have l4: "length ''http'' = 4" by simp
  have "re_match (map (\<lambda>c. One (Chr c)) ''http'' @ Opt (Chr CHR ''s'') # ?tail) s =
     (if prefix ''http'' s
      then map_option (\<lambda>n. 4 + n) (re_match (Opt (Chr CHR ''s'') # ?tail) (drop 4 s))
      else None)"
    using re_match_lits[of "''http''" "Opt (Chr CHR ''s'') # ?tail" s] unfolding l4 .
  then have 1: "re_match url_pattern s =
     (if prefix ''http'' s
      then map_option (\<lambda>n. 4 + n) (re_match (Opt (Chr CHR ''s'') # ?tail) (drop 4 s))
      else None)"
    by (simp add: url_pattern_def del: re_match.simps)
  have 2: "re_match (Opt (Chr CHR ''s'') # ?tail) t =
     (case (case t of [] \<Rightarrow> None
            | c # cs \<Rightarrow> if c = CHR ''s'' then map_option Suc (re_match ?tail cs) else None) of
        Some n \<Rightarrow> Some n | None \<Rightarrow> re_match ?tail t)" for t
    by (simp only: re_match.simps(3) atom_ok.simps)
  show ?thesis
  proof (cases "prefix ''http'' s")
    case False
    then have "\<not> prefix ''https://'' s" "\<not> prefix ''http://'' s"
      by (auto simp: prefix_def)
    then show ?thesis using False 1 by (simp add: url_at_def token_len_def)
  next
    case True
    then obtain t where s: "s = ''http'' @ t" by (auto simp: prefix_def)
    have d: "drop 4 s = t" by (simp add: s)
    have 3: "re_match url_pattern s = map_option (\<lambda>n. 4 + n) (re_match (Opt (Chr CHR ''s'') # ?tail) t)"
      using 1 True d by simp
    show ?thesis
    proof (cases t)
      case Nil
      then show ?thesis using 3
        by (simp add: 2 re_match_tail url_at_def token_len_def s del: re_match.simps)
    next
      case (Cons c cs)
      show ?thesis
      proof (cases "c = CHR ''s''")
        case True
        then show ?thesis using 3
          by (simp add: 2 re_match_tail url_at_def token_len_def s Cons del: re_match.simps)
      next
        case False
        then show ?thesis using 3
          by (simp add: 2 re_match_tail url_at_def token_len_def s Cons del: re_match.simps)
      qed
    qed
  qed
qed

lemma url_at_pos: "url_at s = Some n \<Longrightarrow> 0 < n"
  by (auto simp: url_at_def token_len_def Let_def split: if_splits)

lemma find_urls_eq_scan: "find_urls doc = scan_urls doc"
proof (induction doc rule: scan_urls.induct)
  case 1
  show ?case by (simp add: find_urls_def re_match_url_pattern url_at_def token_len_def)
next
  case (2 c cs)
  show ?case
  proof (cases "url_at (c # cs)")
    case None
    then show ?thesis using 2(1) by (simp add: find_urls_def re_match_url_pattern)
  next
    case (Some n)
    then obtain m where m: "n = Suc m" using url_at_pos[OF Some] by (cases n) auto
    show ?thesis using 2(2)[OF Some] Some m
      by (simp add: find_urls_def re_match_url_pattern)
  qed
qed

text \<open>
  Claim C7, as amended. \<open>find_urls\<close> returns the matches of a scan from the left, in
  order and with duplicates: at each position where \<open>http://\<close> or \<open>https://\<close>
  starts and at least one character other than whitespace and parentheses follows, the
  token and the longest run of such characters are reported and the scan resumes behind
  them; any other position is skipped. So a token inside a reported match is not reported
  again, and a token with nothing behind it is not reported.
\<close>

theorem find_urls_scan: "find_urls doc = scan_urls doc"
  by (rule find_urls_eq_scan)

text \<open>
  Claim C7 as stated fails: in \<open>http://http://a\<close> the substring \<open>http://a\<close> starts
  with the token and runs to the end of the longest run, yet only the whole text is
  returned.
\<close>

theorem find_urls_overlap_counterexample:
  "find_urls ''http://http://a'' \<noteq> spec_find_urls ''http://http://a''"
  by code_simp

section \<open>The document transform: errors\<close>


lemma map_result_set:
  "map_result f xs = Inr ys \<Longrightarrow> y \<in> set ys \<Longrightarrow> \<exists>x \<in> set xs. f x = Inr y"
proof (induction xs arbitrary: ys)
  case Nil
  then show ?case by simp
next
  case (Cons x xs)
  then show ?case by (auto split: sum.splits)
qed








text \<open>
  Claim C2 on the text \<open>http://a/x http://a/x.png\<close>. The second URL is an image and is
  left out of the replacement map, but the first URL is a prefix of it, and replacing the
  first URL everywhere in the text rewrites the image URL as well.
\<close>

theorem add_utm_to_all_urls_image_prefix:
  "add_utm_to_all_urls (\<lambda>_. True) ''http://a/x http://a/x.png'' ''s'' ''m'' ''c''
     = Inr ''http://a/x?utm_source=s&utm_medium=m&utm_campaign=c http://a/x?utm_source=s&utm_medium=m&utm_campaign=c.png''"
  by code_simp

section \<open>The annotated URL as a string\<close>

lemma urlunsplit_query:
  assumes "q \<noteq> []"
  shows "urlunsplit s n u q [] = urlunsplit s n u [] [] @ ''?'' @ q"
  unfolding urlunsplit_def Let_def using assms by (simp only: if_True if_False simp_thms)

lemma geturl_new_query:
  assumes "query p = []" "fragment p = []" "q \<noteq> []"
  shows "geturl (p\<lparr>query := q\<rparr>) = geturl p @ ''?'' @ q"
proof -
  have "geturl (p\<lparr>query := q\<rparr>)
      = urlunsplit (scheme p) (netloc p)
          (if params p \<noteq> [] then path p @ '';'' @ params p else path p) q []"
    using assms(2) by (simp add: geturl_def)
  also have "\<dots> = urlunsplit (scheme p) (netloc p)
          (if params p \<noteq> [] then path p @ '';'' @ params p else path p) [] [] @ ''?'' @ q"
    by (rule urlunsplit_query[OF assms(3)])
  also have "\<dots> = geturl p @ ''?'' @ q"
    using assms(1,2) by (simp add: geturl_def)
  finally show ?thesis .
qed

lemma merged_params_empty:
  "merged_params [] source medium campaign = utm source medium campaign"
  by (simp add: merged_params_def dict_of_def dict_update_def parse_qsl_def utm_def cps_def)

lemma urlencode_utm:
  "urlencode (utm source medium campaign)
     = ''utm_source='' @ quote_plus (cps source) @ ''&utm_medium='' @ quote_plus (cps medium)
       @ ''&utm_campaign='' @ quote_plus (cps campaign)"
proof -
  have "list_all scalar (cps ''utm_source'')" "list_all scalar (cps ''utm_medium'')"
    "list_all scalar (cps ''utm_campaign'')" by (rule cps_scalar)+
  have k: "quote_plus (cps ''utm_source'') = ''utm_source''"
    "quote_plus (cps ''utm_medium'') = ''utm_medium''"
    "quote_plus (cps ''utm_campaign'') = ''utm_campaign''"
    by code_simp+
  show ?thesis by (simp add: urlencode_def utm_def k)
qed

lemma str_replace_whole: "u \<noteq> [] \<Longrightarrow> str_replace u new u = new"
  by (cases u) (simp_all add: str_replace_def)

lemma urlunsplit_fragment:
  "urlunsplit s n u q f = urlunsplit s n u q [] @ (if f = [] then [] else ''#'' @ f)"
  by (cases "f = []") (simp_all add: urlunsplit_def Let_def)

lemma geturl_fragment:
  "geturl p = geturl (p\<lparr>fragment := []\<rparr>) @ (if fragment p = [] then [] else ''#'' @ fragment p)"
proof -
  have "geturl p = urlunsplit (scheme p) (netloc p)
       (if params p \<noteq> [] then path p @ '';'' @ params p else path p) (query p) []
       @ (if fragment p = [] then [] else ''#'' @ fragment p)"
    unfolding geturl_def by (rule urlunsplit_fragment)
  also have "urlunsplit (scheme p) (netloc p)
       (if params p \<noteq> [] then path p @ '';'' @ params p else path p) (query p) []
     = geturl (p\<lparr>fragment := []\<rparr>)"
    by (simp add: geturl_def)
  finally show ?thesis .
qed

lemma geturl_insert_query:
  assumes "query p = []" "q \<noteq> []"
  shows "geturl (p\<lparr>query := q\<rparr>)
           = geturl (p\<lparr>fragment := []\<rparr>) @ ''?'' @ q
             @ (if fragment p = [] then [] else ''#'' @ fragment p)"
proof -
  let ?p0 = "p\<lparr>fragment := []\<rparr>"
  have "geturl (p\<lparr>query := q\<rparr>)
      = geturl (p\<lparr>query := q, fragment := []\<rparr>)
        @ (if fragment p = [] then [] else ''#'' @ fragment p)"
    using geturl_fragment[of "p\<lparr>query := q\<rparr>"] by simp
  also have "geturl (p\<lparr>query := q, fragment := []\<rparr>) = geturl (?p0\<lparr>query := q\<rparr>)"
    by (simp add: geturl_def)
  also have "\<dots> = geturl ?p0 @ ''?'' @ q"
    by (rule geturl_new_query) (use assms in simp_all)
  finally show ?thesis by simp
qed

lemma map_result_replicate:
  "f x = Inr y \<Longrightarrow> map_result f (replicate n x) = Inr (replicate n y)"
  by (induction n) simp_all

lemma dict_set_same: "dict_set [(k, v)] k v = [(k, v)]"
  by simp

lemma dict_of_replicate: "dict_of (replicate (Suc n) (k, v)) = [(k, v)]"
proof -
  have "foldl (\<lambda>d (k, v). dict_set d k v) [(k, v)] (replicate n (k, v)) = [(k, v)]"
    by (induction n) simp_all
  then show ?thesis by (simp add: dict_of_def dict_update_def)
qed

lemma all_same_replicate:
  "xs \<noteq> [] \<Longrightarrow> list_all (\<lambda>v. v = u) xs \<Longrightarrow> \<exists>n. xs = replicate (Suc n) u"
proof (induction xs)
  case Nil then show ?case by simp
next
  case (Cons a xs)
  show ?case
  proof (cases xs)
    case Nil
    then show ?thesis using Cons.prems by (intro exI[of _ 0]) simp
  next
    case (Cons b ys)
    then obtain n where "xs = replicate (Suc n) u" using Cons.IH Cons.prems by auto
    then show ?thesis using Cons.prems by (intro exI[of _ "Suc n"]) simp
  qed
qed

lemma add_utm_to_all_urls_single:
  assumes "urlparse ok u = Inr p" and "geturl p = u"
    and "add_utm_to_url ok (Parsed p) source medium campaign = Inr new"
    and "find_urls doc \<noteq> []" and "list_all (\<lambda>v. v = u) (find_urls doc)"
    and "\<not> is_image (path p)"
  shows "add_utm_to_all_urls ok doc source medium campaign = Inr (str_replace u new doc)"
proof -
  obtain n where f: "find_urls doc = replicate (Suc n) u"
    using all_same_replicate[OF assms(4,5)] by blast
  have 1: "map_result (urlparse ok) (find_urls doc) = Inr (replicate (Suc n) p)"
    unfolding f by (rule map_result_replicate[of "urlparse ok" u p, OF assms(1)])
  have 2: "filter (\<lambda>url. \<not> is_image (path url)) (replicate (Suc n) p) = replicate (Suc n) p"
    using assms(6) by simp
  have 3: "map_result (\<lambda>url. case add_utm_to_url ok (Parsed url) source medium campaign of
                               Inl e \<Rightarrow> Inl e
                             | Inr new \<Rightarrow> Inr (geturl url, new)) (replicate (Suc n) p)
           = Inr (replicate (Suc n) (u, new))"
    by (rule map_result_replicate) (simp add: assms(2,3))
  show ?thesis
    unfolding add_utm_to_all_urls_def Let_def 1 sum.case 2 3 dict_of_replicate
    by simp
qed

text \<open>
  Claim C1, as amended. Let \<open>u\<close> be a URL that parses with an empty query and that
  \<open>geturl\<close> writes back unchanged. Then \<open>u\<close> is the URL without its fragment
  followed by \<open>#\<close> and the fragment, if there is one, and \<open>add_utm_to_url\<close> returns the
  URL without its fragment, then \<open>?utm_source=S&utm_medium=M&utm_campaign=C\<close>, the keys
  in this order and the values encoded by \<open>quote_plus\<close>, then \<open>#\<close> and the fragment,
  if there is one: for a URL without fragment this is \<open>u\<close> followed by the three
  parameters. For every text in which the locator finds \<open>u\<close> and no other URL, and
  \<open>u\<close> is not an image, \<open>add_utm_to_all_urls\<close> returns the text with every occurrence
  of \<open>u\<close> replaced by that string.
\<close>

theorem no_query_appends_utm:
  assumes "urlparse ok u = Inr p" and "query p = []" and "geturl p = u"
  shows "u = geturl (p\<lparr>fragment := []\<rparr>) @ (if fragment p = [] then [] else ''#'' @ fragment p)
         \<and> add_utm_to_url ok (Str u) source medium campaign
           = Inr (geturl (p\<lparr>fragment := []\<rparr>)
                    @ ''?utm_source='' @ quote_plus (cps source)
                    @ ''&utm_medium='' @ quote_plus (cps medium)
                    @ ''&utm_campaign='' @ quote_plus (cps campaign)
                    @ (if fragment p = [] then [] else ''#'' @ fragment p))
         \<and> (find_urls doc \<noteq> [] \<and> list_all (\<lambda>v. v = u) (find_urls doc)
              \<and> \<not> is_image (path p) \<longrightarrow>
              add_utm_to_all_urls ok doc source medium campaign
                = Inr (str_replace u
                         (geturl (p\<lparr>fragment := []\<rparr>)
                            @ ''?utm_source='' @ quote_plus (cps source)
                            @ ''&utm_medium='' @ quote_plus (cps medium)
                            @ ''&utm_campaign='' @ quote_plus (cps campaign)
                            @ (if fragment p = [] then [] else ''#'' @ fragment p))
                         doc))"
proof -
  let ?q = "urlencode (merged_params (query p) source medium campaign)"
  let ?new = "geturl (p\<lparr>fragment := []\<rparr>)
                @ ''?utm_source='' @ quote_plus (cps source)
                @ ''&utm_medium='' @ quote_plus (cps medium)
                @ ''&utm_campaign='' @ quote_plus (cps campaign)
                @ (if fragment p = [] then [] else ''#'' @ fragment p)"
  have q: "?q = ''utm_source='' @ quote_plus (cps source) @ ''&utm_medium='' @ quote_plus (cps medium)
       @ ''&utm_campaign='' @ quote_plus (cps campaign)"
    unfolding assms(2) merged_params_empty by (rule urlencode_utm)
  then have ne: "?q \<noteq> []" by simp
  have "geturl (p\<lparr>query := ?q\<rparr>) = geturl (p\<lparr>fragment := []\<rparr>) @ ''?'' @ ?q
             @ (if fragment p = [] then [] else ''#'' @ fragment p)"
    by (rule geturl_insert_query[OF assms(2) ne])
  also have "\<dots> = ?new" unfolding q by simp
  finally have g: "geturl (p\<lparr>query := ?q\<rparr>) = ?new" .
  have 0: "u = geturl (p\<lparr>fragment := []\<rparr>) @ (if fragment p = [] then [] else ''#'' @ fragment p)"
    using geturl_fragment[of p] unfolding assms(3) .
  have pt: "parses_to ok (Str u) p" using assms(1) by (simp add: parses_to_def)
  have 1: "add_utm_to_url ok (Str u) source medium campaign = Inr ?new"
    unfolding add_utm_to_url_eq[OF pt] g ..
  have pp: "parses_to ok (Parsed p) p" by (simp add: parses_to_def)
  have 2: "add_utm_to_url ok (Parsed p) source medium campaign = Inr ?new"
    unfolding add_utm_to_url_eq[OF pp] g ..
  have 3: "add_utm_to_all_urls ok doc source medium campaign = Inr (str_replace u ?new doc)"
    if "find_urls doc \<noteq> []" "list_all (\<lambda>v. v = u) (find_urls doc)" "\<not> is_image (path p)"
    by (rule add_utm_to_all_urls_single[OF assms(1,3) 2 that])
  show ?thesis
    by (rule conjI[OF 0 conjI[OF 1]]) (use 3 in blast)
qed

theorem no_query_appends_utm_witness:
  "urlparse (\<lambda>_. True) ''http://a/p''
     = Inr \<lparr>scheme = ''http'', netloc = ''a'', path = ''/p'', params = [], query = [],
            fragment = []\<rparr>
   \<and> geturl \<lparr>scheme = ''http'', netloc = ''a'', path = ''/p'', params = [], query = [],
            fragment = []\<rparr> = ''http://a/p''
   \<and> find_urls ''See http://a/p now'' = [''http://a/p''] \<and> \<not> is_image ''/p''
   \<and> add_utm_to_url (\<lambda>_. True) (Str ''http://a/p'') ''s s'' ''m'' ''c''
       = Inr ''http://a/p?utm_source=s+s&utm_medium=m&utm_campaign=c''
   \<and> add_utm_to_all_urls (\<lambda>_. True) ''See http://a/p now'' ''s s'' ''m'' ''c''
       = Inr ''See http://a/p?utm_source=s+s&utm_medium=m&utm_campaign=c now''"
proof -
  let ?p = "\<lparr>scheme = ''http'', netloc = ''a'', path = ''/p'', params = [], query = [],
            fragment = []\<rparr>"
  let ?new = "geturl (?p\<lparr>fragment := []\<rparr>)
                @ ''?utm_source='' @ quote_plus (cps ''s s'')
                @ ''&utm_medium='' @ quote_plus (cps ''m'')
                @ ''&utm_campaign='' @ quote_plus (cps ''c'')
                @ (if fragment ?p = [] then [] else ''#'' @ fragment ?p)"
  have h1: "urlparse (\<lambda>_. True) ''http://a/p'' = Inr ?p" by code_simp
  have h2: "query ?p = []" by simp
  have h4: "geturl ?p = ''http://a/p''" by code_simp
  have f: "find_urls ''See http://a/p now'' = [''http://a/p'']" by code_simp
  have f1: "find_urls ''See http://a/p now'' \<noteq> []" unfolding f by simp
  have f2: "list_all (\<lambda>v. v = ''http://a/p'') (find_urls ''See http://a/p now'')"
    unfolding f by simp
  have i: "\<not> is_image ''/p''" by code_simp
  have i': "\<not> is_image (path ?p)" using i by simp
  have n: "?new = ''http://a/p?utm_source=s+s&utm_medium=m&utm_campaign=c''" by code_simp
  have r: "str_replace ''http://a/p'' ''http://a/p?utm_source=s+s&utm_medium=m&utm_campaign=c''
             ''See http://a/p now''
           = ''See http://a/p?utm_source=s+s&utm_medium=m&utm_campaign=c now''"
    by code_simp
  note t = no_query_appends_utm[OF h1 h2 h4, of "''s s''" "''m''" "''c''" "''See http://a/p now''"]
  have a: "add_utm_to_url (\<lambda>_. True) (Str ''http://a/p'') ''s s'' ''m'' ''c''
       = Inr ''http://a/p?utm_source=s+s&utm_medium=m&utm_campaign=c''"
    using t[THEN conjunct2, THEN conjunct1] unfolding n .
  have b: "add_utm_to_all_urls (\<lambda>_. True) ''See http://a/p now'' ''s s'' ''m'' ''c''
       = Inr ''See http://a/p?utm_source=s+s&utm_medium=m&utm_campaign=c now''"
    using t[THEN conjunct2, THEN conjunct2, THEN mp, OF conjI[OF f1 conjI[OF f2 i']]]
    unfolding n r .
  show ?thesis
    by (rule conjI[OF h1 conjI[OF h4 conjI[OF f conjI[OF i conjI[OF a b]]]]])
qed

text \<open>
  Claim C1 as stated fails on a URL with a fragment: \<open>http://a/p#f\<close> has no query, and
  the tracking parameters are put in front of the fragment, not behind the URL.
\<close>

theorem fragment_counterexample:
  "urlparse (\<lambda>_. True) ''http://a/p#f''
     = Inr \<lparr>scheme = ''http'', netloc = ''a'', path = ''/p'', params = [], query = [],
            fragment = ''f''\<rparr>
   \<and> add_utm_to_url (\<lambda>_. True) (Str ''http://a/p#f'') ''s'' ''m'' ''c''
       = Inr ''http://a/p?utm_source=s&utm_medium=m&utm_campaign=c#f''
   \<and> ''http://a/p?utm_source=s&utm_medium=m&utm_campaign=c#f''
       \<noteq> ''http://a/p#f'' @ ''?utm_source=s&utm_medium=m&utm_campaign=c''"
  by code_simp

section \<open>Parsing the annotated URL again\<close>


























































end
